theory Spec2Isabelle
  imports Main "HOL-Library.Sublist"
begin

section \<open>Geometry: points and rectangles\<close>

text \<open>
  Go's \<^verbatim>\<open>int\<close> is a 64-bit two's complement integer on the platforms the window
  backend supports. Integers are modelled as \<open>int\<close>; every addition and subtraction
  of the source is followed by \<open>wrap\<close>, which reduces the mathematical result to the
  signed 64-bit range the way the machine does.
\<close>

definition wrap :: "int \<Rightarrow> int" where
  "wrap x = (x + 2 ^ 63) mod 2 ^ 64 - 2 ^ 63"

record point =
  X :: int
  Y :: int

record rectangle =
  Min :: point
  Max :: point

definition Pt :: "int \<Rightarrow> int \<Rightarrow> point" where
  "Pt x y = \<lparr>X = x, Y = y\<rparr>"

text \<open>
  \<^verbatim>\<open>image.Rect(x0, y0, x1, y1)\<close> of the Go standard library: the rectangle
  \<^verbatim>\<open>Rectangle{Pt(x0, y0), Pt(x1, y1)}\<close>, with the minimum and maximum coordinates
  swapped where necessary so that the result is well-formed.
\<close>

definition Rect :: "int \<Rightarrow> int \<Rightarrow> int \<Rightarrow> int \<Rightarrow> rectangle" where
  "Rect x0 y0 x1 y1 =
     (let (x0', x1') = (if x0 > x1 then (x1, x0) else (x0, x1));
          (y0', y1') = (if y0 > y1 then (y1, y0) else (y0, y1))
      in \<lparr>Min = Pt x0' y0', Max = Pt x1' y1'\<rparr>)"

text \<open>The zero rectangle \<^verbatim>\<open>image.Rectangle{}\<close>, the element value of a fresh slice.\<close>

definition ZR :: rectangle where
  "ZR = \<lparr>Min = Pt 0 0, Max = Pt 0 0\<rparr>"

section \<open>Scroller (scroller.go)\<close>

datatype color = RGBA nat nat nat nat

record Scroller =
  Background :: "color option"
  Length :: int
  ChildHeight :: int
  Offset :: int
  Gap :: int
  Vertical :: bool

text \<open>
  \<^verbatim>\<open>func clamp(val, a, b int) int\<close>: only comparisons, no arithmetic, so the
  result never leaves the range of its arguments.
\<close>

definition clamp :: "int \<Rightarrow> int \<Rightarrow> int \<Rightarrow> int" where
  "clamp val a b =
     (if a > b then
        (if val < b then b
         else if val > a then a
         else val)
      else
        (if val > b then b
         else if val < a then a
         else val))"

text \<open>
  A run-time panic of the Go program: every place where the source aborts is a
  constructor, so that an abort is a value of the model.
\<close>

datatype go_panic =
    MakesliceLenOutOfRange
  | IndexOutOfRange nat nat
  | SendOnClosedChannel
  | CloseOfClosedChannel
  | MuxRemoveFailed

text \<open>
  The loop of \<^verbatim>\<open>Scroller.Partition\<close>:
  \<^verbatim>\<open>for i := 0; i < items; i++ { r := image.Rect(...); ret[i] = r; Y += ch + gap }\<close>.
  The loop variable stays below \<open>items\<close>, so \<open>i + 1\<close> cannot overflow; the slice
  \<open>ret\<close> has \<open>items\<close> elements, so the store \<open>ret[i] = r\<close> is in range.
\<close>

function Partition_loop :: "Scroller \<Rightarrow> rectangle \<Rightarrow> int \<Rightarrow> int \<Rightarrow> rectangle list \<Rightarrow> rectangle list" where
  "Partition_loop s bounds i y ret =
     (if i < Length s then
        (let r = Rect (wrap (X (Min bounds) + Gap s)) y
                      (wrap (X (Max bounds) - Gap s)) (wrap (y + ChildHeight s))
         in Partition_loop s bounds (i + 1)
              (wrap (y + wrap (ChildHeight s + Gap s))) (ret[nat i := r]))
      else ret)"
  by pat_completeness auto
termination
  by (relation "measure (\<lambda>(s, bounds, i, y, ret). nat (Length s - i))") auto

text \<open>
  \<^verbatim>\<open>func (s Scroller) Partition(bounds image.Rectangle) []image.Rectangle\<close>.
  \<^verbatim>\<open>make([]image.Rectangle, items)\<close> panics for a negative length.
\<close>

definition Partition :: "Scroller \<Rightarrow> rectangle \<Rightarrow> go_panic + rectangle list" where
  "Partition s bounds =
     (let items = Length s in
      if items < 0 then Inl MakesliceLenOutOfRange
      else
        (let ret = replicate (nat items) ZR;
             y0 = wrap (wrap (Y (Min bounds) + Offset s) + Gap s)
         in Inr (Partition_loop s bounds 0 y0 ret)))"

section \<open>Events and the unbounded event queue\<close>

datatype Button = ButtonLeft | ButtonRight | ButtonMiddle

datatype Key =
    KeyLeft | KeyRight | KeyUp | KeyDown | KeyEscape | KeySpace | KeyBackspace | KeyDelete
  | KeyEnter | KeyTab | KeyHome | KeyEnd | KeyPageUp | KeyPageDown | KeyShift | KeyCtrl | KeyAlt

text \<open>
  Modelled from the spec: the declaration of \<^verbatim>\<open>Event\<close> is not among the sources;
  only the places that build events are (the window's callbacks). The spec gives a
  closed tagged union with one variant per input class; the constructor names are the
  ones the callbacks use. A rune is its code point.
\<close>

datatype Event =
    Resize rectangle
  | MoMove point
  | MoDown point Button
  | MoUp point Button
  | MoScroll point
  | KbType nat
  | KbDown Key
  | KbUp Key
  | KbRepeat Key
  | WiClose

fun is_Resize :: "Event \<Rightarrow> bool" where
  "is_Resize (Resize r) = True"
| "is_Resize e = False"

text \<open>
  A channel is identified by the address \<^verbatim>\<open>make\<close> returned for it; two channel
  values are equal in Go exactly when they are the same channel.
\<close>

type_synonym chan_id = nat

section \<open>Mux (the dynamic-child multiplexer)\<close>

text \<open>
  \<^verbatim>\<open>type muxEnv struct\<close>: a struct of channels. Go compares two such structs field
  by field, which is equality of the record.
\<close>

record muxEnv =
  eventsIn :: chan_id
  eventsOut :: chan_id
  draw :: chan_id
  attachChan :: chan_id
  kill :: chan_id
  dead :: chan_id
  detachFromMux :: chan_id

text \<open>
  \<^verbatim>\<open>fmt.Errorf("%v not found in %v", e, s)\<close>: the error value of \<^verbatim>\<open>remove\<close>
  carries the element and the slice.
\<close>

datatype 'a remove_error = NotFound 'a "'a list"

text \<open>
  \<^verbatim>\<open>func remove[S ~[]E, E comparable](e E, s S) ([]E, error)\<close>. The loop
  \<^verbatim>\<open>for i := range s\<close> is \<open>remove_from\<close>, started at index 0; the slice
  expression \<^verbatim>\<open>append(s[:i], s[i+1:]...)\<close> is \<open>take i s @ drop (i + 1) s\<close>.
  Go returns the pair of the slice and the error; a \<^verbatim>\<open>nil\<close> error is \<open>None\<close>.
\<close>

function remove_from :: "nat \<Rightarrow> 'a \<Rightarrow> 'a list \<Rightarrow> 'a list \<times> 'a remove_error option" where
  "remove_from i e s =
     (if i < length s then
        (if s ! i = e then (take i s @ drop (i + 1) s, None)
         else remove_from (i + 1) e s)
      else (s, Some (NotFound e s)))"
  by pat_completeness auto
termination
  by (relation "measure (\<lambda>(i, e, s). length s - i)") auto

declare remove_from.simps [simp del]

definition remove :: "'a \<Rightarrow> 'a list \<Rightarrow> 'a list \<times> 'a remove_error option" where
  "remove e s = remove_from 0 e s"

text \<open>
  The state the Mux coordinator of \<^verbatim>\<open>NewMux\<close> works on: its local slice
  \<^verbatim>\<open>children\<close>, the shared-size cell \<^verbatim>\<open>size\<close> and the event queues of the child
  Envs, a store from the address of an \<^verbatim>\<open>eventsIn\<close> channel to what was sent to it and
  has not been read. The cell holds one value; a read before the first write blocks, so
  the cell is \<open>None\<close> until then, as in \<^verbatim>\<open>newSharedVal\<close>.
\<close>

record mux_state =
  children :: "muxEnv list"
  size_cell :: "rectangle option"
  queues :: "chan_id \<Rightarrow> Event list"

text \<open>
  Modelled from the spec: \<^verbatim>\<open>MakeEventsChan\<close> is not among the sources. The event
  queue is a producer/consumer pair with unlimited buffering: a send never blocks and
  appends at the end, the reader takes from the front.
\<close>

definition enqueue :: "chan_id \<Rightarrow> Event \<Rightarrow> mux_state \<Rightarrow> mux_state" where
  "enqueue c e st = st\<lparr>queues := (queues st)(c := queues st c @ [e])\<rparr>"

text \<open>The state of the coordinator when it enters its loop: no child, no size yet.\<close>

definition NewMux :: mux_state where
  "NewMux = \<lparr>children = [], size_cell = None, queues = (\<lambda>c. [])\<rparr>"

text \<open>
  The cases of the coordinator's \<^verbatim>\<open>select\<close>, one function each.

  \<^verbatim>\<open>case e := <-parent.Events()\<close>: a Resize is stored in the size cell, then the event
  is sent to every child in the order of \<^verbatim>\<open>children\<close>.
\<close>

definition mux_event :: "Event \<Rightarrow> mux_state \<Rightarrow> mux_state" where
  "mux_event e st =
     (let st1 = (case e of Resize r \<Rightarrow> st\<lparr>size_cell := Some r\<rparr> | _ \<Rightarrow> st)
      in foldl (\<lambda>s child. enqueue (eventsIn child) e s) st1 (children st1))"

text \<open>\<^verbatim>\<open>case child := <-addChild: children = append(children, child)\<close>\<close>

definition mux_addChild :: "muxEnv \<Rightarrow> mux_state \<Rightarrow> mux_state" where
  "mux_addChild child st = st\<lparr>children := children st @ [child]\<rparr>"

text \<open>
  \<^verbatim>\<open>case child := <-removeChild\<close>: the coordinator panics when \<^verbatim>\<open>remove\<close>
  returns an error.
\<close>

definition mux_removeChild :: "muxEnv \<Rightarrow> mux_state \<Rightarrow> go_panic + mux_state" where
  "mux_removeChild child st =
     (case remove child (children st) of
        (cs, None) \<Rightarrow> Inr (st\<lparr>children := cs\<rparr>)
      | (cs, Some err) \<Rightarrow> Inl MuxRemoveFailed)"

text \<open>The coordinator consuming a sequence of parent events, one loop iteration each.\<close>

definition mux_events :: "Event list \<Rightarrow> mux_state \<Rightarrow> mux_state" where
  "mux_events es st = foldl (\<lambda>s e. mux_event e s) st es"

text \<open>
  \<^verbatim>\<open>Mux.MakeEnv\<close>, the caller's side. Its first statement
  \<^verbatim>\<open>mux.addChild <- env\<close> is a rendezvous with the coordinator's \<^verbatim>\<open>addChild\<close> case,
  so it is \<open>mux_addChild\<close>. Its second statement
  \<^verbatim>\<open>eventsIn <- Resize{mux.size.Get()}\<close> is \<open>MakeEnv_resize\<close>: the read blocks
  (result \<open>None\<close>) while the cell has no value.
\<close>

definition MakeEnv_resize :: "muxEnv \<Rightarrow> mux_state \<Rightarrow> mux_state option" where
  "MakeEnv_resize env st =
     (case size_cell st of
        None \<Rightarrow> None
      | Some r \<Rightarrow> Some (enqueue (eventsIn env) (Resize r) st))"

text \<open>
  The interleavings of the coordinator with a caller of \<^verbatim>\<open>MakeEnv\<close>: a schedule
  lists the steps in the order in which they happen. \<open>Register\<close> is the rendezvous on
  \<^verbatim>\<open>addChild\<close>, \<open>Forward\<close> a loop iteration of the coordinator on a parent event,
  \<open>InitialResize\<close> the second statement of \<^verbatim>\<open>MakeEnv\<close>.
\<close>

datatype mux_step = Register muxEnv | Forward Event | InitialResize muxEnv

fun run_schedule :: "mux_step list \<Rightarrow> mux_state \<Rightarrow> mux_state option" where
  "run_schedule [] st = Some st"
| "run_schedule (Register env # steps) st = run_schedule steps (mux_addChild env st)"
| "run_schedule (Forward e # steps) st = run_schedule steps (mux_event e st)"
| "run_schedule (InitialResize env # steps) st =
     (case MakeEnv_resize env st of None \<Rightarrow> None | Some st' \<Rightarrow> run_schedule steps st')"

text \<open>What a reader of the child's \<^verbatim>\<open>Events()\<close> channel receives first.\<close>

definition first_event :: "muxEnv \<Rightarrow> mux_state \<Rightarrow> Event option" where
  "first_event env st = (case queues st (eventsIn env) of [] \<Rightarrow> None | e # es \<Rightarrow> Some e)"

text \<open>
  The channels of the \<open>n\<close>-th Env a test makes: seven channels at consecutive
  addresses, so that two such Envs share no channel.
\<close>

definition muxEnv_at :: "nat \<Rightarrow> muxEnv" where
  "muxEnv_at n = \<lparr>eventsIn = 7 * n, eventsOut = 7 * n + 1, draw = 7 * n + 2,
     attachChan = 7 * n + 3, kill = 7 * n + 4, dead = 7 * n + 5, detachFromMux = 7 * n + 6\<rparr>"

section \<open>The layout Mux (package layout)\<close>

text \<open>
  The fields of the layout \<^verbatim>\<open>Mux\<close> that \<^verbatim>\<open>resizeChildren\<close> reads: the bounds cell,
  the constant slice of the children's \<^verbatim>\<open>eventsIn\<close> channels, and the layout, here its
  method \<^verbatim>\<open>Lay\<close>. The event queues are a store as for the Mux above, and
  \<open>log_lines\<close> records each call of \<^verbatim>\<open>log.Printf\<close> by the length it prints.
\<close>

record layout_mux =
  bounds :: "rectangle option"
  eventsIns :: "chan_id list"
  Lay :: "rectangle \<Rightarrow> rectangle list"
  lay_queues :: "chan_id \<Rightarrow> Event list"
  log_lines :: "nat list"

text \<open>
  The loop of \<^verbatim>\<open>Mux.resizeChildren\<close> over the children's channels, with the counter
  \<open>i\<close>: the guard is \<^verbatim>\<open>i > len(lay)\<close>, and the index expression \<^verbatim>\<open>lay[i]\<close>
  panics when \<open>i\<close> is not below the length of \<open>lay\<close>.
\<close>

fun resizeChildren_loop ::
  "rectangle list \<Rightarrow> chan_id list \<Rightarrow> nat \<Rightarrow> layout_mux \<Rightarrow> go_panic + layout_mux" where
  "resizeChildren_loop lay [] i m = Inr m"
| "resizeChildren_loop lay (evIn # rest) i m =
     (if i > length lay then Inr (m\<lparr>log_lines := log_lines m @ [length lay]\<rparr>)
      else if i < length lay then
        resizeChildren_loop lay rest (i + 1)
          (m\<lparr>lay_queues := (lay_queues m)(evIn := lay_queues m evIn @ [Resize (lay ! i)])\<rparr>)
      else Inl (IndexOutOfRange i (length lay)))"

text \<open>
  \<^verbatim>\<open>func (mux *Mux) resizeChildren()\<close>; the read of the bounds blocks (\<open>None\<close>)
  until the cell has a value.
\<close>

definition resizeChildren :: "layout_mux \<Rightarrow> (go_panic + layout_mux) option" where
  "resizeChildren m =
     (case bounds m of
        None \<Rightarrow> None
      | Some rect \<Rightarrow> Some (resizeChildren_loop (Lay m rect) (eventsIns m) 0 m))"

text \<open>
  The dispatch loop of \<^verbatim>\<open>NewLayout\<close> (layout.go), for one rectangle read from
  \<^verbatim>\<open>resizes\<close>: \<^verbatim>\<open>for i, r := range scheme.Partition(rect) { resizerChans[i] <- r }\<close>.
  It runs over the partition, not over the children, and writes no log; the result lists
  what each resizer channel was sent.
\<close>

fun NewLayout_dispatch ::
  "rectangle list \<Rightarrow> nat \<Rightarrow> chan_id list \<Rightarrow> (chan_id \<times> rectangle) list
     \<Rightarrow> go_panic + (chan_id \<times> rectangle) list" where
  "NewLayout_dispatch [] i resizerChans sent = Inr sent"
| "NewLayout_dispatch (r # rs) i resizerChans sent =
     (if i < length resizerChans then
        NewLayout_dispatch rs (i + 1) resizerChans (sent @ [(resizerChans ! i, r)])
      else Inl (IndexOutOfRange i (length resizerChans)))"

section \<open>Coordinator goroutines: channels, deferred calls, shutdown\<close>

text \<open>
  The channels a coordinator goroutine works with, named by its local variables. The
  channels of another entity \<open>v\<close> (an attached victim, the child controller of an
  Env, a child Env of a Mux) are \<open>KillOf v\<close>, \<open>DeadOf v\<close> and \<open>DetachOf v\<close>.
\<close>

datatype 'v chan =
    Attach | Kill | Dead | DetachFromParent
  | DrawChan | EventsEnqueue | ParentDraw
  | AddChild | RemoveChild
  | EventsIn | MuxDraw | MuxRemoveChild
  | KillOf 'v | DeadOf 'v | DetachOf 'v

datatype hook = FilterEvents | FilterDraws | Shutdown | SizeClose

text \<open>
  One operation of a goroutine. \<open>RecvVal c v\<close> receives the value \<open>v\<close> on \<open>c\<close>,
  \<open>Recv c\<close> receives a signal whose value is not used, \<open>RecvEvent e\<close> receives the
  event \<open>e\<close> from \<^verbatim>\<open>parent.Events()\<close>. \<open>GoDrain c\<close> is \<^verbatim>\<open>go drain(c)\<close>,
  \<open>Call h\<close> a call of a function the goroutine was given. \<open>Closes c\<close> is not an
  operation of the goroutine itself: another goroutine closes its channel \<open>c\<close>, which
  decides what a later send of this goroutine on \<open>c\<close> does.
\<close>

datatype 'v op =
    Send "'v chan"
  | Recv "'v chan"
  | RecvVal "'v chan" 'v
  | RecvEvent Event
  | Close "'v chan"
  | GoDrain "'v chan"
  | Call hook
  | Closes "'v chan"

text \<open>
  The effect of an operation on the set of channels the goroutine has closed. Go panics
  on the close of a closed channel and on a send on a closed channel; a receive on a
  closed channel returns at once. The channels of other entities are not in the set:
  where the source lets another entity close a channel the goroutine sends on, the
  goroutine's control function below keeps track of it.
\<close>

fun exec_op :: "'v op \<Rightarrow> 'v chan set \<Rightarrow> go_panic + 'v chan set" where
  "exec_op (Close c) cl = (if c \<in> cl then Inl CloseOfClosedChannel else Inr (insert c cl))"
| "exec_op (Send c) cl = (if c \<in> cl then Inl SendOnClosedChannel else Inr cl)"
| "exec_op (Recv c) cl = Inr cl"
| "exec_op (RecvVal c v) cl = Inr cl"
| "exec_op (RecvEvent e) cl = Inr cl"
| "exec_op (GoDrain c) cl = Inr cl"
| "exec_op (Call h) cl = Inr cl"
| "exec_op (Closes c) cl = Inr cl"

fun run_ops :: "'v op list \<Rightarrow> 'v chan set \<Rightarrow> go_panic + 'v chan set" where
  "run_ops [] cl = Inr cl"
| "run_ops (a # as) cl = (case exec_op a cl of Inl p \<Rightarrow> Inl p | Inr cl' \<Rightarrow> run_ops as cl')"

text \<open>
  Deferred calls: each \<^verbatim>\<open>defer\<close> statement pushes a call, given here by the
  operations of its body; when the function returns, the calls run last pushed first.
  A list of deferred calls is written in the order of the \<^verbatim>\<open>defer\<close> statements in
  the source.
\<close>

definition on_return :: "'v op list list \<Rightarrow> 'v op list" where
  "on_return defers = concat (rev defers)"

text \<open>
  Where a goroutine stands: at a point \<open>p\<close> of its loop; in straight-line code that
  ends the goroutine (\<open>Finishing\<close>: the operations left, the deferred calls included;
  none left when the goroutine has exited); or panicking (\<open>Panicking\<close>): Go runs the
  deferred calls of a panicking goroutine, last pushed first, before the program stops,
  so the state holds the operations of the deferred calls still to run, and none is left
  when the program has stopped. \<open>Panicked\<close> is the panic that \<open>exec_op\<close> raises, on
  a close or send on a channel the goroutine has closed itself; the model ends there.
\<close>

datatype ('p, 'v) pc =
    Loop 'p
  | Finishing "'v op list"
  | Panicking go_panic "'v op list"
  | Panicked go_panic

fun panicking :: "('p, 'v) pc \<Rightarrow> bool" where
  "panicking (Panicking p ops) = True"
| "panicking (Panicked p) = True"
| "panicking (Loop l) = False"
| "panicking (Finishing ops) = False"

record ('p, 'v) goroutine =
  pc :: "('p, 'v) pc"
  closed :: "'v chan set"

text \<open>
  What an operation does at a point of the loop: go on at another point, leave the loop
  through the rest of a \<^verbatim>\<open>select\<close> case that ends with \<^verbatim>\<open>return\<close> (its operations,
  then the deferred calls), or panic with the deferred calls that were pushed (in source
  order), which then run. An operation for which the control function is \<open>None\<close> is not
  what the goroutine does at that point: a partner offering it waits.
\<close>

datatype ('p, 'v) branch =
    Goto 'p
  | Return "'v op list" "'v op list list"
  | Crash go_panic "'v op list list"

type_synonym ('p, 'v) control = "'p \<Rightarrow> 'v op \<Rightarrow> ('p, 'v) branch option"

definition perform :: "'v op \<Rightarrow> ('p, 'v) pc \<Rightarrow> ('p, 'v) goroutine \<Rightarrow> ('p, 'v) goroutine" where
  "perform a pc' s =
     (case exec_op a (closed s) of
        Inl p \<Rightarrow> s\<lparr>pc := Panicked p\<rparr>
      | Inr cl \<Rightarrow> \<lparr>pc = pc', closed = cl\<rparr>)"

fun step :: "('p, 'v) control \<Rightarrow> ('p, 'v) goroutine \<Rightarrow> 'v op \<Rightarrow> ('p, 'v) goroutine option" where
  "step ctl s a =
     (case pc s of
        Loop p \<Rightarrow>
          (case ctl p a of
             None \<Rightarrow> None
           | Some (Goto p') \<Rightarrow> Some (perform a (Loop p') s)
           | Some (Return body defers) \<Rightarrow> Some (perform a (Finishing (body @ on_return defers)) s)
           | Some (Crash p defers) \<Rightarrow> Some (s\<lparr>pc := Panicking p (on_return defers)\<rparr>))
      | Finishing [] \<Rightarrow> None
      | Finishing (b # bs) \<Rightarrow> (if a = b then Some (perform a (Finishing bs) s) else None)
      | Panicking p [] \<Rightarrow> None
      | Panicking p (b # bs) \<Rightarrow> (if a = b then Some (perform a (Panicking p bs) s) else None)
      | Panicked p \<Rightarrow> None)"

fun run :: "('p, 'v) control \<Rightarrow> 'v op list \<Rightarrow> ('p, 'v) goroutine \<Rightarrow> ('p, 'v) goroutine option" where
  "run ctl [] s = Some s"
| "run ctl (a # as) s = (case step ctl s a of None \<Rightarrow> None | Some s' \<Rightarrow> run ctl as s')"

definition start :: "'p \<Rightarrow> ('p, 'v) goroutine" where
  "start p = \<lparr>pc = Loop p, closed = {}\<rparr>"

text \<open>
  What happens to a goroutine outside that sends on channel \<open>c\<close> of the coordinator,
  the coordinator's receipt being the operation \<open>a\<close>: the send panics when the channel
  is closed, is received when the coordinator is at a \<^verbatim>\<open>select\<close> with that case,
  and blocks otherwise (all these channels are unbuffered).
\<close>

datatype send_outcome = Received | Blocks | Panics go_panic

definition offer :: "('p, 'v) control \<Rightarrow> ('p, 'v) goroutine \<Rightarrow> 'v chan \<Rightarrow> 'v op \<Rightarrow> send_outcome" where
  "offer ctl s c a =
     (if c \<in> closed s then Panics SendOnClosedChannel
      else if step ctl s a = None then Blocks
      else Received)"

section \<open>The attach protocol: newKiller and newAttachHandler\<close>

text \<open>
  The goroutines of \<^verbatim>\<open>newKiller\<close> (kill.go) and \<^verbatim>\<open>newAttachHandler\<close> have the
  same body. The deferred calls, in source order:
  \<^verbatim>\<open>defer func() { dead <- true; close(dead) }()\<close>, \<^verbatim>\<open>defer close(kill)\<close>,
  \<^verbatim>\<open>defer close(attach)\<close>.
\<close>

definition killer_defers :: "'v op list list" where
  "killer_defers = [[Send Dead, Close Dead], [Close Kill], [Close Attach]]"

text \<open>
  The two \<^verbatim>\<open>select\<close> statements: the outer one (\<open>Idle\<close>) receives a victim on
  \<^verbatim>\<open>attach\<close> or the kill signal; the inner one receives the victim's detach signal
  or the kill signal, and on kill runs
  \<^verbatim>\<open>victim.Kill() <- true; <-victim.detach(); <-victim.Dead(); return\<close>.

  The victim is a Killable of its own and can be killed by someone else. Every victim
  in the sources closes its kill channel before it signals detach (the deferred calls
  of \<^verbatim>\<open>newEnv\<close> and \<^verbatim>\<open>NewMux\<close>, the victim of the tests), so the controller
  can be at its inner select with a victim that is still attached and whose kill channel
  is closed: \<open>Attached v\<close> is the inner select with the victim's kill channel open,
  \<open>AttachedClosed v\<close> the inner select after the victim has closed it. The close is a
  step of the victim and independent of the controller's steps up to its send, so it is
  recorded at the select. With the channel closed, \<^verbatim>\<open>victim.Kill() <- true\<close>
  (\<open>KillingClosed v\<close>) panics, and the controller's deferred calls run.
\<close>

datatype 'v killer_loc = Idle | Attached 'v | AttachedClosed 'v | KillingClosed 'v

fun killer_control :: "('v killer_loc, 'v) control" where
  "killer_control Idle a =
     (case a of
        RecvVal c v \<Rightarrow> (if c = Attach then Some (Goto (Attached v)) else None)
      | Recv c \<Rightarrow> (if c = Kill then Some (Return [] killer_defers) else None)
      | _ \<Rightarrow> None)"
| "killer_control (Attached v) a =
     (if a = Recv (DetachOf v) then Some (Goto Idle)
      else if a = Recv Kill then
        Some (Return [Send (KillOf v), Recv (DetachOf v), Recv (DeadOf v)] killer_defers)
      else if a = Closes (KillOf v) then Some (Goto (AttachedClosed v))
      else None)"
| "killer_control (AttachedClosed v) a =
     (if a = Recv (DetachOf v) then Some (Goto Idle)
      else if a = Recv Kill then Some (Goto (KillingClosed v))
      else None)"
| "killer_control (KillingClosed v) a =
     (if a = Send (KillOf v) then Some (Crash SendOnClosedChannel killer_defers) else None)"

abbreviation newKiller :: "('v killer_loc, 'v) goroutine" where
  "newKiller \<equiv> start Idle"

text \<open>
  The victim that holds the slot after a sequence of operations of the controller, read
  off the operations alone: a victim is attached when the controller receives it on
  \<^verbatim>\<open>attach\<close>, and it is detached when the controller receives its detach signal.
\<close>

fun slot_step :: "'v option \<Rightarrow> 'v op \<Rightarrow> 'v option" where
  "slot_step h (RecvVal c v) = (if c = Attach then Some v else h)"
| "slot_step h (Recv c) = (case h of None \<Rightarrow> None | Some v \<Rightarrow> if c = DetachOf v then None else h)"
| "slot_step h a = h"

definition slot :: "'v op list \<Rightarrow> 'v option" where
  "slot acts = foldl slot_step None acts"

text \<open>
  The order of operations that the attach protocol prescribes after kill, for an empty
  slot and for a slot held by \<open>v\<close>; the theorems compare the runs of the controller
  with it.
\<close>

fun kill_path :: "'v option \<Rightarrow> 'v op list" where
  "kill_path None = [Close Attach, Close Kill, Send Dead, Close Dead]"
| "kill_path (Some v) =
     [Send (KillOf v), Recv (DetachOf v), Recv (DeadOf v),
      Close Attach, Close Kill, Send Dead, Close Dead]"

section \<open>The coordinator of newEnv\<close>

text \<open>
  The deferred calls of the goroutine of \<^verbatim>\<open>newEnv\<close>, in source order:
  \<^verbatim>\<open>defer func() { dead <- true; close(dead) }()\<close>,
  \<^verbatim>\<open>defer func() { detachFromParent <- true; close(detachFromParent) }()\<close>,
  \<^verbatim>\<open>defer shutdown()\<close>, \<^verbatim>\<open>defer close(events.Enqueue)\<close>,
  \<^verbatim>\<open>defer close(drawChan)\<close>, \<^verbatim>\<open>defer close(kill)\<close>,
  \<^verbatim>\<open>defer func() { go drain(drawChan); child.Kill() <- true; <-child.Dead() }()\<close>.
  \<open>child\<close> is the controller \<^verbatim>\<open>newKiller()\<close> the Env owns.
\<close>

definition newEnv_defers :: "'v \<Rightarrow> 'v op list list" where
  "newEnv_defers child =
     [[Send Dead, Close Dead],
      [Send DetachFromParent, Close DetachFromParent],
      [Call Shutdown],
      [Close EventsEnqueue],
      [Close DrawChan],
      [Close Kill],
      [GoDrain DrawChan, Send (KillOf child), Recv (DeadOf child)]]"

text \<open>
  The loop: \<^verbatim>\<open>select\<close> among an event of the parent, then passed to
  \<^verbatim>\<open>filterEvents\<close>; a draw function on \<^verbatim>\<open>drawChan\<close>, then passed to
  \<^verbatim>\<open>filterDraws\<close>; and the kill signal, then \<^verbatim>\<open>return\<close>.
\<close>

datatype env_loc = Selecting | FilteringEvent | FilteringDraw

fun newEnv_control :: "'v \<Rightarrow> (env_loc, 'v) control" where
  "newEnv_control child Selecting a =
     (case a of
        RecvEvent e \<Rightarrow> Some (Goto FilteringEvent)
      | Recv c \<Rightarrow>
          (if c = DrawChan then Some (Goto FilteringDraw)
           else if c = Kill then Some (Return [] (newEnv_defers child))
           else None)
      | _ \<Rightarrow> None)"
| "newEnv_control child FilteringEvent a =
     (if a = Call FilterEvents then Some (Goto Selecting) else None)"
| "newEnv_control child FilteringDraw a =
     (if a = Call FilterDraws then Some (Goto Selecting) else None)"

section \<open>The coordinator of NewMux\<close>

text \<open>
  The deferred calls of the goroutine of \<^verbatim>\<open>NewMux\<close>, in source order:
  \<^verbatim>\<open>defer func() { dead <- true; close(dead) }()\<close>,
  \<^verbatim>\<open>defer func() { detachFromParent <- true; close(detachFromParent) }()\<close>,
  \<^verbatim>\<open>defer close(kill)\<close>, \<^verbatim>\<open>defer close(removeChild)\<close>,
  \<^verbatim>\<open>defer close(addChild)\<close>, \<^verbatim>\<open>defer close(drawChan)\<close>,
  \<^verbatim>\<open>defer size.Close()\<close>, and the closure that starts
  \<^verbatim>\<open>go drain(drawChan)\<close>, sends kill to every child and then receives once on
  \<^verbatim>\<open>removeChild\<close> for every child. The closure reads \<^verbatim>\<open>children\<close> when it
  runs, so the list is the registry at the time of the return.
\<close>

definition NewMux_defers :: "muxEnv list \<Rightarrow> muxEnv op list list" where
  "NewMux_defers cs =
     [[Send Dead, Close Dead],
      [Send DetachFromParent, Close DetachFromParent],
      [Close Kill],
      [Close RemoveChild],
      [Close AddChild],
      [Close DrawChan],
      [Call SizeClose],
      GoDrain DrawChan # map (\<lambda>child. Send (KillOf child)) cs @ map (\<lambda>child. Recv RemoveChild) cs]"

text \<open>
  The loop of the coordinator, over the cases given as functions above; after a draw
  function was received it is sent on to \<^verbatim>\<open>parent.Draw()\<close>. The panic on a failed
  remove runs the deferred calls, with the registry as it is (\<^verbatim>\<open>remove\<close> returns its
  argument with the error).
\<close>

datatype mux_loc = MuxSelect mux_state | MuxForwardDraw mux_state

fun mux_control :: "(mux_loc, muxEnv) control" where
  "mux_control (MuxSelect st) a =
     (case a of
        Recv c \<Rightarrow>
          (if c = DrawChan then Some (Goto (MuxForwardDraw st))
           else if c = Kill then Some (Return [] (NewMux_defers (children st)))
           else None)
      | RecvEvent e \<Rightarrow> Some (Goto (MuxSelect (mux_event e st)))
      | RecvVal c env \<Rightarrow>
          (if c = AddChild then Some (Goto (MuxSelect (mux_addChild env st)))
           else if c = RemoveChild then
             (case mux_removeChild env st of
                Inl p \<Rightarrow> Some (Crash p (NewMux_defers (children st)))
              | Inr st' \<Rightarrow> Some (Goto (MuxSelect st')))
           else None)
      | _ \<Rightarrow> None)"
| "mux_control (MuxForwardDraw st) a =
     (if a = Send ParentDraw then Some (Goto (MuxSelect st)) else None)"

section \<open>The coordinator of a child Env of the Mux\<close>

text \<open>
  The goroutine that \<^verbatim>\<open>Mux.MakeEnv\<close> starts for the child. Its deferred calls, in
  source order: \<^verbatim>\<open>defer func() { dead <- true; close(dead) }()\<close>,
  \<^verbatim>\<open>defer close(kill)\<close>, \<^verbatim>\<open>defer close(drawChan)\<close>,
  \<^verbatim>\<open>defer close(eventsIn)\<close>,
  \<^verbatim>\<open>defer func() { mux.removeChild <- env }()\<close>,
  \<^verbatim>\<open>defer func() { attached.kill <- true; <-attached.dead }()\<close>,
  \<^verbatim>\<open>defer func() { go drain(drawChan) }()\<close>.
  \<open>attached\<close> is the attach handler the child owns; \<open>MuxDraw\<close> and
  \<open>MuxRemoveChild\<close> are the Mux's \<^verbatim>\<open>draw\<close> and \<^verbatim>\<open>removeChild\<close> channels.
\<close>

definition MakeEnv_defers :: "'v \<Rightarrow> 'v op list list" where
  "MakeEnv_defers attached =
     [[Send Dead, Close Dead],
      [Close Kill],
      [Close DrawChan],
      [Close EventsIn],
      [Send MuxRemoveChild],
      [Send (KillOf attached), Recv (DeadOf attached)],
      [GoDrain DrawChan]]"

text \<open>
  The loop: a draw function received on \<^verbatim>\<open>drawChan\<close> is sent on to the Mux; the
  kill signal ends the loop.
\<close>

datatype child_loc = ChildSelect | ChildForwardDraw

fun MakeEnv_control :: "'v \<Rightarrow> (child_loc, 'v) control" where
  "MakeEnv_control attached ChildSelect a =
     (case a of
        Recv c \<Rightarrow>
          (if c = DrawChan then Some (Goto ChildForwardDraw)
           else if c = Kill then Some (Return [] (MakeEnv_defers attached))
           else None)
      | _ \<Rightarrow> None)"
| "MakeEnv_control attached ChildForwardDraw a =
     (if a = Send MuxDraw then Some (Goto ChildSelect) else None)"

section \<open>One-shot shutdown\<close>

text \<open>
  What holds of a coordinator that has received its kill signal, after the operations
  \<open>acts\<close> and in the state \<open>s\<close>: it received kill once, it emitted Dead at most
  once and closed no channel twice, it has not panicked, and a further kill signal is not
  received: the sender blocks while the kill channel is open and panics once the
  coordinator has closed it. When the goroutine has exited, the kill channel is closed
  and Dead was emitted.
\<close>

definition one_shot :: "('p, 'v) control \<Rightarrow> 'v op list \<Rightarrow> ('p, 'v) goroutine \<Rightarrow> bool" where
  "one_shot ctl acts s \<longleftrightarrow>
     count_list acts (Recv Kill) = 1 \<and>
     count_list acts (Send Dead) \<le> 1 \<and>
     (\<forall>c. count_list acts (Close c) \<le> 1) \<and>
     \<not> panicking (pc s) \<and>
     offer ctl s Kill (Recv Kill) = (if Kill \<in> closed s then Panics SendOnClosedChannel else Blocks) \<and>
     (pc s = Finishing [] \<longrightarrow> Kill \<in> closed s \<and> count_list acts (Send Dead) = 1)"

text \<open>
  A shutdown path that can back \<open>one_shot\<close>: it does not receive kill again, emits
  Dead once, and runs without a panic from the state in which no channel is closed,
  closing the kill channel on the way.
\<close>

definition shutdown_ok :: "'v op list \<Rightarrow> bool" where
  "shutdown_ok path \<longleftrightarrow> Recv Kill \<notin> set path \<and> count_list path (Send Dead) = 1 \<and>
     (\<exists>cl. run_ops path {} = Inr cl \<and> Kill \<in> cl)"

text \<open>The deferred calls of \<^verbatim>\<open>newEnv\<close> in the order in which they run.\<close>

definition newEnv_shutdown :: "'v \<Rightarrow> 'v op list" where
  "newEnv_shutdown child = [GoDrain DrawChan, Send (KillOf child), Recv (DeadOf child),
      Close Kill, Close DrawChan, Close EventsEnqueue, Call Shutdown,
      Send DetachFromParent, Close DetachFromParent, Send Dead, Close Dead]"

text \<open>The deferred calls of \<^verbatim>\<open>NewMux\<close> in the order in which they run.\<close>

definition NewMux_shutdown :: "muxEnv list \<Rightarrow> muxEnv op list" where
  "NewMux_shutdown cs =
     GoDrain DrawChan # map (\<lambda>child. Send (KillOf child)) cs @ map (\<lambda>child. Recv RemoveChild) cs @
     [Call SizeClose, Close DrawChan, Close AddChild, Close RemoveChild, Close Kill,
      Send DetachFromParent, Close DetachFromParent, Send Dead, Close Dead]"

text \<open>The deferred calls of the child's goroutine in the order in which they run.\<close>

definition MakeEnv_shutdown :: "'v \<Rightarrow> 'v op list" where
  "MakeEnv_shutdown attached =
     [GoDrain DrawChan, Send (KillOf attached), Recv (DeadOf attached), Send MuxRemoveChild,
      Close EventsIn, Close DrawChan, Close Kill, Send Dead, Close Dead]"

section \<open>Properties of clamp and Partition\<close>

text \<open>
  C10. For all integers val, a and b, in either order of a and b, the result of
  clamp lies in the closed interval between the smaller and the larger of a and b,
  and clamp returns val unchanged whenever val already lies in that interval.
\<close>

theorem clamp_in_interval:
  "min a b \<le> clamp val a b \<and> clamp val a b \<le> max a b \<and>
   (min a b \<le> val \<and> val \<le> max a b \<longrightarrow> clamp val a b = val)"
  by (simp add: clamp_def min_def max_def)

theorem clamp_in_interval_witness:
  "(min 7 (-3) \<le> (2::int) \<and> (2::int) \<le> max 7 (-3)) \<and>
   min 7 (-3) \<le> clamp 2 7 (-3) \<and> clamp 2 7 (-3) \<le> max 7 (-3) \<and> clamp 2 7 (-3) = 2"
  using clamp_in_interval [of 7 "-3" 2] by simp

text \<open>
  C9. The Scroller with Length 3, ChildHeight 50, Gap 5 and Offset 0 partitions the
  bounds (0,0)-(100,500) into exactly the three rectangles (5,5)-(95,55),
  (5,60)-(95,110) and (5,115)-(95,165), in this order.
\<close>

theorem Partition_example:
  "Partition \<lparr>Background = None, Length = 3, ChildHeight = 50, Offset = 0, Gap = 5,
              Vertical = False\<rparr> (Rect 0 0 100 500)
   = Inr [Rect 5 5 95 55, Rect 5 60 95 110, Rect 5 115 95 165]"
  by (simp add: Partition_def Rect_def Pt_def ZR_def wrap_def numeral_3_eq_3 numeral_2_eq_2)

section \<open>Properties of remove and of the Mux coordinator\<close>

lemma remove_from_spec:
  "remove_from i e s =
     (if e \<in> set (drop i s) then (take i s @ remove1 e (drop i s), None)
      else (s, Some (NotFound e s)))"
proof (induction i e s rule: remove_from.induct)
  case (1 i e s)
  show ?case
  proof (cases "i < length s")
    case False
    then show ?thesis by (subst remove_from.simps) simp
  next
    case inrange: True
    then have d: "drop i s = s ! i # drop (Suc i) s"
      by (simp add: Cons_nth_drop_Suc)
    show ?thesis
    proof (cases "s ! i = e")
      case True
      with inrange d show ?thesis by (subst remove_from.simps) simp
    next
      case False
      have t: "take (Suc i) s = take i s @ [s ! i]"
        using inrange by (simp add: take_Suc_conv_app_nth)
      have "remove_from i e s = remove_from (i + 1) e s"
        using inrange False by (subst remove_from.simps) simp
      also have "\<dots> = (if e \<in> set (drop (Suc i) s)
                        then (take (Suc i) s @ remove1 e (drop (Suc i) s), None)
                        else (s, Some (NotFound e s)))"
        using "1.IH" [OF inrange False] by simp
      finally show ?thesis using False d t by auto
    qed
  qed
qed

lemma remove_first_occurrence:
  assumes "e \<in> set s"
  shows "\<exists>xs ys. s = xs @ e # ys \<and> e \<notin> set xs \<and> remove1 e s = xs @ ys"
proof -
  from assms obtain xs ys where s: "s = xs @ e # ys" and n: "e \<notin> set xs"
    by (auto dest: split_list_first)
  then have "remove1 e s = xs @ ys" by (simp add: remove1_append)
  with s n show ?thesis by blast
qed

lemma remove_absent: "e \<notin> set s \<Longrightarrow> remove e s = (s, Some (NotFound e s))"
  by (simp add: remove_def remove_from_spec)

lemma remove_present:
  assumes "e \<in> set s"
  shows "\<exists>xs ys. s = xs @ e # ys \<and> e \<notin> set xs \<and> remove e s = (xs @ ys, None)"
proof -
  from remove_first_occurrence [OF assms] obtain xs ys
    where "s = xs @ e # ys" "e \<notin> set xs" "remove1 e s = xs @ ys" by blast
  moreover have "remove e s = (remove1 e s, None)"
    using assms by (simp add: remove_def remove_from_spec)
  ultimately show ?thesis by auto
qed

lemma remove_error_iff: "snd (remove e s) = None \<longleftrightarrow> e \<in> set s"
  by (simp add: remove_def remove_from_spec)

lemma mux_removeChild_absent:
  "child \<notin> set (children st) \<Longrightarrow> mux_removeChild child st = Inl MuxRemoveFailed"
  by (simp add: mux_removeChild_def remove_absent)

lemma mux_removeChild_present:
  assumes "child \<in> set (children st)"
  shows "\<exists>xs ys. children st = xs @ child # ys \<and> child \<notin> set xs \<and>
           mux_removeChild child st = Inr (st\<lparr>children := xs @ ys\<rparr>)"
proof -
  from remove_present [OF assms] obtain xs ys
    where r: "children st = xs @ child # ys" "child \<notin> set xs"
      "remove child (children st) = (xs @ ys, None)" by blast
  from r(3) have "mux_removeChild child st = Inr (st\<lparr>children := xs @ ys\<rparr>)"
    by (simp add: mux_removeChild_def)
  with r(1,2) show ?thesis by blast
qed

text \<open>
  C7. \<open>remove e s\<close> returns an error exactly when \<open>e\<close> is not an element of \<open>s\<close>
  (and then returns \<open>s\<close> itself with the error); when \<open>e\<close> is present it returns
  \<open>s\<close> without the first occurrence of \<open>e\<close>, all other elements kept in order.
  The Mux coordinator, on a child-remove request, panics when the child is not in its
  registry, and otherwise continues with the registry without the first occurrence of
  the child.
\<close>

theorem remove_child_spec:
  "(snd (remove e s) = None \<longleftrightarrow> e \<in> set s) \<and>
   (e \<notin> set s \<longrightarrow> remove e s = (s, Some (NotFound e s))) \<and>
   (e \<in> set s \<longrightarrow>
      (\<exists>xs ys. s = xs @ e # ys \<and> e \<notin> set xs \<and> remove e s = (xs @ ys, None))) \<and>
   (child \<notin> set (children st) \<longrightarrow> mux_removeChild child st = Inl MuxRemoveFailed) \<and>
   (child \<in> set (children st) \<longrightarrow>
      (\<exists>xs ys. children st = xs @ child # ys \<and> child \<notin> set xs \<and>
         mux_removeChild child st = Inr (st\<lparr>children := xs @ ys\<rparr>)))"
  using remove_error_iff [of e s] remove_absent [of e s] remove_present [of e s]
    mux_removeChild_absent [of child st] mux_removeChild_present [of child st]
  by blast

theorem remove_child_spec_witness:
  "(2::nat) \<in> set [1, 2, 3, 2] \<and> remove (2::nat) [1, 2, 3, 2] = ([1, 3, 2], None) \<and>
   (5::nat) \<notin> set [1, 2, 3, 2] \<and>
   remove (5::nat) [1, 2, 3, 2] = ([1, 2, 3, 2], Some (NotFound 5 [1, 2, 3, 2])) \<and>
   muxEnv_at 0 \<in> set [muxEnv_at 1, muxEnv_at 0] \<and>
   mux_removeChild (muxEnv_at 0)
       \<lparr>children = [muxEnv_at 1, muxEnv_at 0], size_cell = None, queues = (\<lambda>c. [])\<rparr>
     = Inr \<lparr>children = [muxEnv_at 1], size_cell = None, queues = (\<lambda>c. [])\<rparr> \<and>
   muxEnv_at 2 \<notin> set [muxEnv_at 1, muxEnv_at 0] \<and>
   mux_removeChild (muxEnv_at 2)
       \<lparr>children = [muxEnv_at 1, muxEnv_at 0], size_cell = None, queues = (\<lambda>c. [])\<rparr>
     = Inl MuxRemoveFailed"
  using remove_child_spec [of "2::nat" "[1, 2, 3, 2]" "muxEnv_at 0"
      "\<lparr>children = [muxEnv_at 1, muxEnv_at 0], size_cell = None, queues = (\<lambda>c. [])\<rparr>"]
    remove_child_spec [of "5::nat" "[1, 2, 3, 2]" "muxEnv_at 2"
      "\<lparr>children = [muxEnv_at 1, muxEnv_at 0], size_cell = None, queues = (\<lambda>c. [])\<rparr>"]
  apply (simp add: muxEnv_at_def)
  apply (auto simp: append_eq_Cons_conv Cons_eq_append_conv)
  done

section \<open>Event fan-out\<close>

lemma forward_children [simp]:
  "children (foldl (\<lambda>s child. enqueue (eventsIn child) e s) st cs) = children st"
  by (induction cs arbitrary: st) (simp_all add: enqueue_def)

lemma forward_size_cell [simp]:
  "size_cell (foldl (\<lambda>s child. enqueue (eventsIn child) e s) st cs) = size_cell st"
  by (induction cs arbitrary: st) (simp_all add: enqueue_def)

lemma forward_queues:
  "distinct (map eventsIn cs) \<Longrightarrow>
   queues (foldl (\<lambda>s child. enqueue (eventsIn child) e s) st cs) ch =
     (if ch \<in> eventsIn ` set cs then queues st ch @ [e] else queues st ch)"
  by (induction cs arbitrary: st) (auto simp: enqueue_def)

lemma mux_event_children [simp]: "children (mux_event e st) = children st"
  by (cases e) (simp_all add: mux_event_def)

lemma mux_event_queues:
  "distinct (map eventsIn (children st)) \<Longrightarrow>
   queues (mux_event e st) ch =
     (if ch \<in> eventsIn ` set (children st) then queues st ch @ [e] else queues st ch)"
  by (cases e) (simp_all add: mux_event_def forward_queues)

lemma mux_events_children [simp]: "children (mux_events es st) = children st"
  unfolding mux_events_def by (induction es arbitrary: st) simp_all

lemma mux_events_queues:
  "distinct (map eventsIn (children st)) \<Longrightarrow>
   queues (mux_events es st) ch =
     (if ch \<in> eventsIn ` set (children st) then queues st ch @ es else queues st ch)"
  unfolding mux_events_def
  by (induction es arbitrary: st) (simp_all add: mux_event_queues)

text \<open>
  C1. A Mux with one child and the events KbDown, KbUp of the parent, none of them a
  Resize, in two interleavings of MakeEnv with the coordinator. In the first the Mux
  holds the bounds (12,34)-(56,78), the child is registered, the coordinator forwards
  KbDown, MakeEnv enqueues the initial Resize, and the coordinator forwards KbUp: the
  child observes KbDown, Resize, KbUp, so the Resize does not precede the events. In the
  second the child is registered before the coordinator has consumed the parent's first
  Resize: the coordinator forwards that Resize, MakeEnv enqueues the initial Resize, and
  the child observes two Resizes in front of the events.
\<close>

theorem mux_fan_out_race:
  "map_option (\<lambda>st. queues st (eventsIn (muxEnv_at 1)))
     (run_schedule
        [Forward (Resize (Rect 12 34 56 78)), Register (muxEnv_at 1),
         Forward (KbDown KeySpace), InitialResize (muxEnv_at 1),
         Forward (KbUp KeySpace)] NewMux)
   = Some [KbDown KeySpace, Resize (Rect 12 34 56 78), KbUp KeySpace] \<and>
   map_option (\<lambda>st. queues st (eventsIn (muxEnv_at 1)))
     (run_schedule
        [Register (muxEnv_at 1), Forward (Resize (Rect 12 34 56 78)),
         InitialResize (muxEnv_at 1), Forward (KbDown KeySpace),
         Forward (KbUp KeySpace)] NewMux)
   = Some [Resize (Rect 12 34 56 78), Resize (Rect 12 34 56 78), KbDown KeySpace,
           KbUp KeySpace]"
  by (simp add: NewMux_def mux_event_def mux_addChild_def MakeEnv_resize_def enqueue_def
      muxEnv_at_def)

text \<open>
  C2. The first event of a child made by MakeEnv, in the interleaving the claim names:
  the Mux holds the bounds (12,34)-(56,78), the child is registered, the coordinator
  forwards a key press of the parent, and only then MakeEnv enqueues the initial Resize.
  The child's queue then holds the key press in front of the Resize.
\<close>

theorem MakeEnv_first_event_race:
  "map_option (\<lambda>st. (queues st (eventsIn (muxEnv_at 1)), first_event (muxEnv_at 1) st))
     (run_schedule
        [Forward (Resize (Rect 12 34 56 78)), Register (muxEnv_at 1),
         Forward (KbDown KeySpace), InitialResize (muxEnv_at 1)] NewMux)
   = Some ([KbDown KeySpace, Resize (Rect 12 34 56 78)], Some (KbDown KeySpace))"
  by (simp add: NewMux_def mux_event_def mux_addChild_def MakeEnv_resize_def enqueue_def
      muxEnv_at_def first_event_def)

section \<open>Resizing the children of a layout\<close>

text \<open>
  C8. A layout Mux with two children whose layout returns a single rectangle: the
  first child is sent its Resize, and the loop then reads \<open>lay[1]\<close> of a slice of
  length 1, which panics; nothing is logged.
\<close>

theorem resizeChildren_shortfall:
  "resizeChildren \<lparr>bounds = Some (Rect 0 0 100 100), eventsIns = [10, 20],
                   Lay = (\<lambda>r. [r]), lay_queues = (\<lambda>c. []), log_lines = []\<rparr>
   = Some (Inl (IndexOutOfRange 1 1))"
  by (simp add: resizeChildren_def)

lemma resizeChildren_loop_shortfall:
  "i \<le> length lay \<Longrightarrow> length lay - i < length chans \<Longrightarrow>
   resizeChildren_loop lay chans i m = Inl (IndexOutOfRange (length lay) (length lay))"
proof (induction chans arbitrary: i m)
  case Nil
  then show ?case by simp
next
  case (Cons c chans)
  show ?case
  proof (cases "i < length lay")
    case True
    with Cons.prems have "length lay - (i + 1) < length chans" by simp
    with Cons.IH [of "i + 1"] True show ?thesis by simp
  next
    case False
    with Cons.prems have "i = length lay" by simp
    then show ?thesis by simp
  qed
qed

lemma NewLayout_dispatch_shortfall:
  "i + length part \<le> length resizerChans \<Longrightarrow>
   NewLayout_dispatch part i resizerChans sent
     = Inr (sent @ zip (take (length part) (drop i resizerChans)) part)"
proof (induction part arbitrary: i sent)
  case Nil
  then show ?case by simp
next
  case (Cons r part)
  then have i: "i < length resizerChans" by simp
  then have d: "drop i resizerChans = resizerChans ! i # drop (Suc i) resizerChans"
    by (simp add: Cons_nth_drop_Suc)
  from Cons.prems have "Suc i + length part \<le> length resizerChans" by simp
  from Cons.IH [OF this] i d show ?case by simp
qed

section \<open>Runs of a coordinator\<close>

lemma run_append:
  "run ctl (xs @ ys) s = (case run ctl xs s of None \<Rightarrow> None | Some s' \<Rightarrow> run ctl ys s')"
  by (induction xs arbitrary: s) (simp_all split: option.splits)

lemma run_snoc:
  "run ctl (xs @ [a]) s = (case run ctl xs s of None \<Rightarrow> None | Some s' \<Rightarrow> step ctl s' a)"
  by (simp add: run_append split: option.splits)

lemma step_Panicked: "pc s = Panicked p \<Longrightarrow> step ctl s a = None"
  by simp

lemma run_Panicked: "pc s = Panicked p \<Longrightarrow> run ctl acts s = Some s' \<Longrightarrow> acts = []"
  by (cases acts) simp_all

lemma finishing_prefix:
  "pc s = Finishing ops \<Longrightarrow> run ctl acts s = Some s' \<Longrightarrow> prefix acts ops"
proof (induction acts arbitrary: s ops)
  case Nil
  then show ?case by simp
next
  case (Cons a acts)
  from Cons.prems obtain s1 where s1: "step ctl s a = Some s1" "run ctl acts s1 = Some s'"
    by (auto split: option.splits)
  from s1(1) Cons.prems(1) obtain bs where ops: "ops = a # bs" and s1': "s1 = perform a (Finishing bs) s"
    by (cases ops) (auto split: if_splits)
  show ?case
  proof (cases "exec_op a (closed s)")
    case (Inl p)
    then have "pc s1 = Panicked p" using s1' by (simp add: perform_def)
    from this s1(2) have "acts = []" by (rule run_Panicked)
    with ops show ?thesis by simp
  next
    case (Inr cl)
    then have "pc s1 = Finishing bs" using s1' by (simp add: perform_def)
    from Cons.IH [OF this s1(2)] ops show ?thesis by simp
  qed
qed

lemma finishing_run:
  "pc s = Finishing (xs @ ys) \<Longrightarrow> run_ops xs (closed s) = Inr cl \<Longrightarrow>
   run ctl xs s = Some \<lparr>pc = Finishing ys, closed = cl\<rparr>"
proof (induction xs arbitrary: s)
  case Nil
  then show ?case by (cases s) simp
next
  case (Cons a xs)
  from Cons.prems(2) obtain cl1 where e: "exec_op a (closed s) = Inr cl1" "run_ops xs cl1 = Inr cl"
    by (auto split: sum.splits)
  let ?s1 = "\<lparr>pc = Finishing (xs @ ys), closed = cl1\<rparr> :: ('a, 'b) goroutine"
  have st: "step ctl s a = Some ?s1" using Cons.prems(1) e(1) by (simp add: perform_def)
  have "run ctl xs ?s1 = Some \<lparr>pc = Finishing ys, closed = cl\<rparr>"
    by (rule Cons.IH) (simp_all add: e)
  with st show ?case by simp
qed

lemma run_ops_append:
  "run_ops (xs @ ys) cl = (case run_ops xs cl of Inl p \<Rightarrow> Inl p | Inr cl' \<Rightarrow> run_ops ys cl')"
  by (induction xs arbitrary: cl) (simp_all split: sum.splits)

lemma run_deterministic_state:
  assumes "pc s0 = Finishing path" and "run_ops path (closed s0) = Inr cl"
    and "run ctl post s0 = Some s"
  shows "\<exists>rest cl'. path = post @ rest \<and> run_ops post (closed s0) = Inr cl' \<and>
           run_ops rest cl' = Inr cl \<and> s = \<lparr>pc = Finishing rest, closed = cl'\<rparr>"
proof -
  from finishing_prefix [OF assms(1,3)] obtain rest where r: "path = post @ rest"
    by (auto simp: prefix_def)
  with assms(2) obtain cl' where c: "run_ops post (closed s0) = Inr cl'" "run_ops rest cl' = Inr cl"
    by (auto simp: run_ops_append split: sum.splits)
  from assms(1) r have "pc s0 = Finishing (post @ rest)" by simp
  from finishing_run [OF this c(1)] assms(3) have "s = \<lparr>pc = Finishing rest, closed = cl'\<rparr>"
    by simp
  with r c show ?thesis by blast
qed

text \<open>A panicking goroutine only runs what is left of its deferred calls.\<close>

lemma panicking_step:
  assumes "panicking (pc s)" and "step ctl s a = Some s'"
  shows "panicking (pc s')"
proof (cases "pc s")
  case (Panicking q ops)
  with assms(2) obtain bs where "ops = a # bs" "s' = perform a (Panicking q bs) s"
    by (cases ops) (auto split: if_splits)
  then show ?thesis by (cases "exec_op a (closed s)") (simp_all add: perform_def)
next
  case (Panicked q)
  with assms(2) show ?thesis by simp
next
  case (Loop l)
  with assms(1) show ?thesis by simp
next
  case (Finishing ops)
  with assms(1) show ?thesis by simp
qed

lemma panicking_run:
  "panicking (pc s) \<Longrightarrow> run ctl acts s = Some s' \<Longrightarrow> panicking (pc s')"
proof (induction acts arbitrary: s)
  case Nil
  then show ?case by simp
next
  case (Cons a acts)
  from Cons.prems(2) obtain s1 where s1: "step ctl s a = Some s1" "run ctl acts s1 = Some s'"
    by (auto split: option.splits)
  from panicking_step [OF Cons.prems(1) s1(1)] have "panicking (pc s1)" .
  from Cons.IH [OF this s1(2)] show ?case .
qed

lemma panicking_rest:
  "pc s = Panicking q ops \<Longrightarrow> run ctl acts s = Some s' \<Longrightarrow>
   prefix acts ops \<and>
   ((\<exists>rest. pc s' = Panicking q rest \<and> set rest \<subseteq> set ops) \<or> (\<exists>p. pc s' = Panicked p))"
proof (induction acts arbitrary: s ops)
  case Nil
  then show ?case by auto
next
  case (Cons a acts)
  from Cons.prems obtain s1 where s1: "step ctl s a = Some s1" "run ctl acts s1 = Some s'"
    by (auto split: option.splits)
  from s1(1) Cons.prems(1) obtain bs where ops: "ops = a # bs"
    and s1': "s1 = perform a (Panicking q bs) s"
    by (cases ops) (auto split: if_splits)
  show ?case
  proof (cases "exec_op a (closed s)")
    case (Inl p)
    then have p1: "pc s1 = Panicked p" using s1' by (simp add: perform_def)
    from this s1(2) have "acts = []" by (rule run_Panicked)
    with ops p1 s1(2) show ?thesis by simp
  next
    case (Inr cl)
    then have "pc s1 = Panicking q bs" using s1' by (simp add: perform_def)
    from Cons.IH [OF this s1(2)] ops show ?thesis by auto
  qed
qed

lemma run_ops_closes:
  "run_ops ops cl0 = Inr cl \<Longrightarrow>
   count_list ops (Close c) \<le> 1 \<and> (Close c \<in> set ops \<longrightarrow> c \<notin> cl0) \<and> cl0 \<subseteq> cl"
proof (induction ops arbitrary: cl0)
  case Nil
  then show ?case by simp
next
  case (Cons a ops)
  from Cons.prems obtain cl1 where e: "exec_op a cl0 = Inr cl1" "run_ops ops cl1 = Inr cl"
    by (auto split: sum.splits)
  from Cons.IH [OF e(2)] have ih: "count_list ops (Close c) \<le> 1"
    "Close c \<in> set ops \<longrightarrow> c \<notin> cl1" "cl1 \<subseteq> cl" by simp_all
  from e(1) have sub: "cl0 \<subseteq> cl1" by (cases a) (auto split: if_splits)
  show ?case
  proof (cases "a = Close c")
    case True
    with e(1) have "c \<notin> cl0" "c \<in> cl1" by (auto split: if_splits)
    with ih(2) have "Close c \<notin> set ops" by blast
    then have "count_list ops (Close c) = 0" by (simp add: count_list_0_iff)
    with True \<open>c \<notin> cl0\<close> sub ih(3) show ?thesis by auto
  next
    case False
    with ih sub show ?thesis by auto
  qed
qed

lemma count_list_prefix: "prefix xs ys \<Longrightarrow> count_list xs a \<le> count_list ys a"
  by (auto simp: prefix_def)

text \<open>
  The state of a coordinator that has received kill and entered a shutdown path with no
  channel closed, after operations \<open>pre\<close> that closed nothing and emitted no Dead.
\<close>

lemma one_shot_after:
  assumes pre: "\<forall>c. Close c \<notin> set pre" "Send Dead \<notin> set pre" "Recv Kill \<notin> set pre"
    and s2: "s2 = \<lparr>pc = Finishing path, closed = {}\<rparr>" and ok: "shutdown_ok path"
    and run: "run ctl post s2 = Some s"
  shows "one_shot ctl (pre @ Recv Kill # post) s"
proof -
  let ?acts = "pre @ Recv Kill # post"
  from pre have pre0: "\<And>c. count_list pre (Close c) = 0"
    "count_list pre (Send Dead) = 0" "count_list pre (Recv Kill) = 0"
    by (simp_all add: count_list_0_iff)
  from ok obtain cl where p: "Recv Kill \<notin> set path" "count_list path (Send Dead) = 1"
    "run_ops path {} = Inr cl" "Kill \<in> cl"
    by (auto simp: shutdown_ok_def)
  from s2 have pc2: "pc s2 = Finishing path" and cl2: "closed s2 = {}" by simp_all
  from run_deterministic_state [OF pc2 _ run] p(3) cl2 obtain rest cl'
    where r: "path = post @ rest" "run_ops post {} = Inr cl'" "run_ops rest cl' = Inr cl"
      "s = \<lparr>pc = Finishing rest, closed = cl'\<rparr>" by auto
  have pre_post: "prefix post path" using r(1) by simp
  have nk: "Recv Kill \<notin> set post" "Recv Kill \<notin> set rest" using p(1) r(1) by auto
  have c1: "count_list ?acts (Recv Kill) = 1"
    using pre0(3) nk(1) by (simp add: count_list_0_iff)
  have c2: "count_list ?acts (Send Dead) \<le> 1"
    using pre0(2) count_list_prefix [OF pre_post, of "Send Dead"] p(2) by simp
  have c3: "\<forall>c. count_list ?acts (Close c) \<le> 1"
    using pre0(1) run_ops_closes [OF r(2)] by simp
  have c4: "\<not> panicking (pc s)" using r(4) by simp
  have st: "step ctl s (Recv Kill) = None"
    using r(4) nk(2) by (cases rest) auto
  have c5: "offer ctl s Kill (Recv Kill) = (if Kill \<in> closed s then Panics SendOnClosedChannel else Blocks)"
    using st by (simp add: offer_def)
  have c6: "pc s = Finishing [] \<longrightarrow> Kill \<in> closed s \<and> count_list ?acts (Send Dead) = 1"
  proof
    assume "pc s = Finishing []"
    with r(4) have "rest = []" by simp
    with r have "post = path" "cl' = cl" by simp_all
    with r(4) p(4) p(2) pre0(2) show "Kill \<in> closed s \<and> count_list ?acts (Send Dead) = 1"
      by simp
  qed
  from c1 c2 c3 c4 c5 c6 show ?thesis unfolding one_shot_def by blast
qed

lemma one_shot_generic:
  assumes kill: "\<And>pre s1 s2. run ctl pre init = Some s1 \<Longrightarrow> Recv Kill \<notin> set pre \<Longrightarrow>
            step ctl s1 (Recv Kill) = Some s2 \<Longrightarrow>
            (\<forall>c. Close c \<notin> set pre) \<and> Send Dead \<notin> set pre \<and>
            (\<exists>path. s2 = \<lparr>pc = Finishing path, closed = {}\<rparr> \<and> shutdown_ok path)"
    and run: "run ctl acts init = Some s" and killed: "Recv Kill \<in> set acts"
  shows "one_shot ctl acts s"
proof -
  from killed obtain pre post where a: "acts = pre @ Recv Kill # post" "Recv Kill \<notin> set pre"
    by (auto dest: split_list_first)
  with run obtain s1 s2 where s: "run ctl pre init = Some s1"
    "step ctl s1 (Recv Kill) = Some s2" "run ctl post s2 = Some s"
    by (auto simp: run_append split: option.splits)
  from kill [OF s(1) a(2) s(2)] obtain path where k: "\<forall>c. Close c \<notin> set pre"
    "Send Dead \<notin> set pre" "s2 = \<lparr>pc = Finishing path, closed = {}\<rparr>" "shutdown_ok path"
    by blast
  from one_shot_after [OF k(1,2) a(2) k(3,4) s(3)] a(1) show ?thesis by simp
qed

section \<open>The attach protocol\<close>

lemma slot_snoc: "slot (acts @ [a]) = slot_step (slot acts) a"
  by (simp add: slot_def)

lemma slot_append: "slot (xs @ ys) = foldl slot_step (slot xs) ys"
  by (simp add: slot_def)

lemma kill_path_on_return:
  "on_return killer_defers = kill_path None"
  "[Send (KillOf v), Recv (DetachOf v), Recv (DeadOf v)] @ on_return killer_defers
     = kill_path (Some v)"
  by (simp_all add: killer_defers_def on_return_def)

lemma step_Idle:
  assumes "step killer_control s a = Some s'" and "pc s = Loop Idle" and "closed s = {}"
  shows "closed s' = {} \<and>
         ((\<exists>v. a = RecvVal Attach v \<and> pc s' = Loop (Attached v)) \<or>
          (a = Recv Kill \<and> pc s' = Finishing (kill_path None)))"
  using assms
  by (cases a) (auto simp: perform_def kill_path_on_return split: if_splits)

lemma step_Attached:
  assumes "step killer_control s a = Some s'" and "pc s = Loop (Attached v)" and "closed s = {}"
  shows "closed s' = {} \<and>
         ((a = Recv (DetachOf v) \<and> pc s' = Loop Idle) \<or>
          (a = Recv Kill \<and> pc s' = Finishing (kill_path (Some v))) \<or>
          (a = Closes (KillOf v) \<and> pc s' = Loop (AttachedClosed v)))"
  using assms
  by (auto simp: perform_def kill_path_on_return split: if_splits)

lemma step_AttachedClosed:
  assumes "step killer_control s a = Some s'" and "pc s = Loop (AttachedClosed v)"
    and "closed s = {}"
  shows "closed s' = {} \<and>
         ((a = Recv (DetachOf v) \<and> pc s' = Loop Idle) \<or>
          (a = Recv Kill \<and> pc s' = Loop (KillingClosed v)))"
  using assms
  by (auto simp: perform_def split: if_splits)

lemma killer_before_kill:
  "run killer_control acts newKiller = Some s \<Longrightarrow> Recv Kill \<notin> set acts \<Longrightarrow>
   closed s = {} \<and>
   ((slot acts = None \<and> pc s = Loop Idle) \<or>
    (\<exists>v. slot acts = Some v \<and> (pc s = Loop (Attached v) \<or> pc s = Loop (AttachedClosed v)))) \<and>
   (\<forall>c. Close c \<notin> set acts) \<and> Send Dead \<notin> set acts"
proof (induction acts arbitrary: s rule: rev_induct)
  case Nil
  then have "pc s = Loop Idle" "closed s = {}" by (auto simp: start_def)
  then show ?case by (simp add: slot_def)
next
  case (snoc a acts)
  from snoc.prems obtain s1 where s1: "run killer_control acts newKiller = Some s1"
    "step killer_control s1 a = Some s" by (auto simp: run_snoc split: option.splits)
  from snoc.prems(2) have nk: "Recv Kill \<notin> set acts" "a \<noteq> Recv Kill" by auto
  from snoc.IH [OF s1(1) nk(1)]
  have cl: "closed s1 = {}" and clean: "\<forall>c. Close c \<notin> set acts" "Send Dead \<notin> set acts"
    by simp_all
  from snoc.IH [OF s1(1) nk(1)]
  consider (idle) "slot acts = None" "pc s1 = Loop Idle"
    | (att) v where "slot acts = Some v" "pc s1 = Loop (Attached v)"
    | (closed) v where "slot acts = Some v" "pc s1 = Loop (AttachedClosed v)"
    by (elim conjE disjE exE) simp_all
  then show ?case
  proof cases
    case idle
    from step_Idle [OF s1(2) idle(2) cl] nk(2)
    obtain v where "a = RecvVal Attach v" "pc s = Loop (Attached v)" "closed s = {}"
      by blast
    with idle(1) clean show ?thesis by (simp add: slot_snoc)
  next
    case att
    from step_Attached [OF s1(2) att(2) cl] nk(2)
    have c: "closed s = {}" and "(a = Recv (DetachOf v) \<and> pc s = Loop Idle) \<or>
        (a = Closes (KillOf v) \<and> pc s = Loop (AttachedClosed v))" by blast+
    then show ?thesis using att(1) clean by (auto simp: slot_snoc)
  next
    case closed
    from step_AttachedClosed [OF s1(2) closed(2) cl] nk(2)
    have "a = Recv (DetachOf v)" "pc s = Loop Idle" "closed s = {}" by blast+
    with closed(1) clean show ?thesis by (simp add: slot_snoc)
  qed
qed

lemma goroutine_eq: "pc s = p \<Longrightarrow> closed s = cl \<Longrightarrow> s = \<lparr>pc = p, closed = cl\<rparr>"
  by (cases s) simp

lemma killer_first_kill:
  assumes "run killer_control (pre @ Recv Kill # post) newKiller = Some s"
    and "Recv Kill \<notin> set pre"
  shows "(\<forall>c. Close c \<notin> set pre) \<and> Send Dead \<notin> set pre \<and>
         (run killer_control post \<lparr>pc = Finishing (kill_path (slot pre)), closed = {}\<rparr> = Some s \<or>
          (\<exists>v. slot pre = Some v \<and>
             run killer_control post \<lparr>pc = Loop (KillingClosed v), closed = {}\<rparr> = Some s))"
proof -
  from assms(1) obtain s1 s2 where s: "run killer_control pre newKiller = Some s1"
    "step killer_control s1 (Recv Kill) = Some s2" "run killer_control post s2 = Some s"
    by (auto simp: run_append split: option.splits)
  from killer_before_kill [OF s(1) assms(2)]
  have cl: "closed s1 = {}" and clean: "\<forall>c. Close c \<notin> set pre" "Send Dead \<notin> set pre"
    by simp_all
  from killer_before_kill [OF s(1) assms(2)]
  consider (idle) "slot pre = None" "pc s1 = Loop Idle"
    | (att) v where "slot pre = Some v" "pc s1 = Loop (Attached v)"
    | (closed) v where "slot pre = Some v" "pc s1 = Loop (AttachedClosed v)"
    by (elim conjE disjE exE) simp_all
  then have "run killer_control post \<lparr>pc = Finishing (kill_path (slot pre)), closed = {}\<rparr> = Some s \<or>
          (\<exists>v. slot pre = Some v \<and>
             run killer_control post \<lparr>pc = Loop (KillingClosed v), closed = {}\<rparr> = Some s)"
  proof cases
    case idle
    from step_Idle [OF s(2) idle(2) cl]
    have "pc s2 = Finishing (kill_path None)" "closed s2 = {}" by simp_all
    then have "s2 = \<lparr>pc = Finishing (kill_path None), closed = {}\<rparr>" by (rule goroutine_eq)
    with s(3) idle(1) show ?thesis by simp
  next
    case att
    from step_Attached [OF s(2) att(2) cl]
    have "pc s2 = Finishing (kill_path (Some v))" "closed s2 = {}" by simp_all
    then have "s2 = \<lparr>pc = Finishing (kill_path (Some v)), closed = {}\<rparr>" by (rule goroutine_eq)
    with s(3) att(1) show ?thesis by simp
  next
    case closed
    from step_AttachedClosed [OF s(2) closed(2) cl]
    have "pc s2 = Loop (KillingClosed v)" "closed s2 = {}" by simp_all
    then have "s2 = \<lparr>pc = Loop (KillingClosed v), closed = {}\<rparr>" by (rule goroutine_eq)
    with s(3) closed(1) show ?thesis by simp
  qed
  with clean show ?thesis by simp
qed

lemma kill_path_runs:
  "run_ops (kill_path h) {} = Inr {Attach, Kill, Dead}"
  by (cases h) (simp_all add: insert_commute)

lemma kill_path_ok: "shutdown_ok (kill_path h)"
  unfolding shutdown_ok_def by (cases h) simp_all

lemma killer_doomed:
  assumes "run killer_control post \<lparr>pc = Loop (KillingClosed v), closed = {}\<rparr> = Some s"
  shows "(post = [] \<and> pc s = Loop (KillingClosed v) \<and> closed s = {}) \<or>
         (\<exists>rest. pc s = Panicking SendOnClosedChannel rest \<and> set rest \<subseteq> set (kill_path None)) \<or>
         (\<exists>p. pc s = Panicked p)"
proof (cases post)
  case Nil
  with assms show ?thesis by auto
next
  case (Cons a r)
  let ?s1 = "\<lparr>pc = Panicking SendOnClosedChannel (kill_path None), closed = {}\<rparr>
    :: ('a killer_loc, 'a) goroutine"
  from assms Cons have "run killer_control r ?s1 = Some s"
    by (simp add: kill_path_on_return split: if_splits option.splits)
  from panicking_rest [OF _ this, of SendOnClosedChannel "kill_path None"]
  show ?thesis by simp
qed


text \<open>
  C3. A victim is attached and then closes its kill channel (it was killed by someone
  else and has not yet signalled detach); the controller receives kill. Its send of
  kill to the victim panics, the deferred calls run, and the controller emits Dead while
  the victim still holds the slot.
\<close>

theorem killer_dead_while_attached:
  "run killer_control
     [RecvVal Attach (1::nat), Closes (KillOf 1), Recv Kill, Send (KillOf 1),
      Close Attach, Close Kill, Send Dead] newKiller
   = Some \<lparr>pc = Panicking SendOnClosedChannel [Close Dead], closed = {Attach, Kill}\<rparr> \<and>
   slot [RecvVal Attach (1::nat), Closes (KillOf 1), Recv Kill, Send (KillOf 1),
      Close Attach, Close Kill, Send Dead] = Some 1"
  by (simp add: start_def perform_def killer_defers_def on_return_def slot_def insert_commute)

text \<open>After kill the controller never receives on its attach channel.\<close>

lemma killer_no_attach_after_kill:
  assumes "run killer_control acts newKiller = Some s" and "Recv Kill \<in> set acts"
  shows "step killer_control s (RecvVal Attach w) = None"
proof -
  from assms(2) obtain pre post where a: "acts = pre @ Recv Kill # post" "Recv Kill \<notin> set pre"
    by (auto dest: split_list_first)
  from killer_first_kill [OF assms(1) [unfolded a(1)] a(2)]
  consider (path) "run killer_control post \<lparr>pc = Finishing (kill_path (slot pre)), closed = {}\<rparr> = Some s"
    | (doomed) v where "run killer_control post \<lparr>pc = Loop (KillingClosed v), closed = {}\<rparr> = Some s"
    by (elim conjE disjE exE) simp_all
  then show ?thesis
  proof cases
    case path
    let ?s2 = "\<lparr>pc = Finishing (kill_path (slot pre)), closed = {}\<rparr> :: ('a killer_loc, 'a) goroutine"
    have "pc ?s2 = Finishing (kill_path (slot pre))"
      "run_ops (kill_path (slot pre)) (closed ?s2) = Inr {Attach, Kill, Dead}"
      by (simp_all add: kill_path_runs)
    from run_deterministic_state [OF this path] obtain rest cl'
      where r: "kill_path (slot pre) = post @ rest" "pc s = Finishing rest"
      by auto
    have "RecvVal Attach w \<notin> set (kill_path (slot pre))" by (cases "slot pre") simp_all
    with r(1) have n: "RecvVal Attach w \<notin> set rest" by simp
    show ?thesis
    proof (cases rest)
      case Nil
      with r(2) show ?thesis by simp
    next
      case (Cons b bs)
      with n have "RecvVal Attach w \<noteq> b" by auto
      with r(2) Cons show ?thesis by simp
    qed
  next
    case doomed
    from killer_doomed [OF doomed]
    consider "pc s = Loop (KillingClosed v)"
      | rest where "pc s = Panicking SendOnClosedChannel rest" "set rest \<subseteq> set (kill_path None)"
      | p where "pc s = Panicked p"
      by (elim conjE disjE exE) simp_all
    then show ?thesis
    proof cases
      case 1
      then show ?thesis by simp
    next
      case 2
      have "RecvVal Attach w \<notin> set (kill_path None)" by simp
      with 2(2) have n: "RecvVal Attach w \<notin> set rest" by blast
      show ?thesis
      proof (cases rest)
        case Nil
        with 2(1) show ?thesis by simp
      next
        case (Cons b bs)
        with n have "RecvVal Attach w \<noteq> b" by auto
        with 2(1) Cons show ?thesis by simp
      qed
    next
      case 3
      then show ?thesis by simp
    qed
  qed
qed

lemma slot_held_on_kill_path:
  assumes "kill_path h = post @ rest" and "foldl slot_step h (Recv Kill # post) = Some v"
  shows "h = Some v \<and> (post = [] \<or> post = [Send (KillOf v)])"
proof (cases h)
  case None
  have "\<And>xs. prefix xs (kill_path (None :: 'a option)) \<Longrightarrow>
      foldl slot_step None (Recv Kill # xs) = (None :: 'a option)"
    by (auto simp: prefix_Cons)
  from this [of post] assms None show ?thesis by (simp add: prefix_def)
next
  case (Some u)
  have "\<And>xs. prefix xs (kill_path (Some u)) \<Longrightarrow>
      foldl slot_step (Some u) (Recv Kill # xs) = Some v
      \<Longrightarrow> u = v \<and> (xs = [] \<or> xs = [Send (KillOf u)])"
    by (auto simp: prefix_Cons split: if_splits)
  moreover have "prefix post (kill_path (Some u))" using assms(1) Some by simp
  moreover have "foldl slot_step (Some u) (Recv Kill # post) = Some v" using assms(2) Some by simp
  ultimately have "u = v \<and> (post = [] \<or> post = [Send (KillOf u)])" by simp
  with Some show ?thesis by blast
qed

text \<open>
  While a victim holds the slot the controller does not receive on its attach channel,
  and unless it is panicking it has not closed the channel either.
\<close>

lemma killer_occupied:
  assumes "run killer_control acts newKiller = Some s" and "slot acts = Some v"
  shows "step killer_control s (RecvVal Attach w) = None \<and>
         (\<not> panicking (pc s) \<longrightarrow> Attach \<notin> closed s)"
proof (cases "Recv Kill \<in> set acts")
  case False
  from killer_before_kill [OF assms(1) False] assms(2)
  have "closed s = {}" "pc s = Loop (Attached v) \<or> pc s = Loop (AttachedClosed v)"
    by simp_all
  then show ?thesis by auto
next
  case True
  then obtain pre post where a: "acts = pre @ Recv Kill # post" "Recv Kill \<notin> set pre"
    by (auto dest: split_list_first)
  have st: "step killer_control s (RecvVal Attach w) = None"
    using killer_no_attach_after_kill [OF assms(1) True] .
  have sl: "foldl slot_step (slot pre) (Recv Kill # post) = Some v"
    using assms(2) a(1) by (simp only: slot_append)
  from killer_first_kill [OF assms(1) [unfolded a(1)] a(2)]
  consider (path) "run killer_control post \<lparr>pc = Finishing (kill_path (slot pre)), closed = {}\<rparr> = Some s"
    | (doomed) u where "run killer_control post \<lparr>pc = Loop (KillingClosed u), closed = {}\<rparr> = Some s"
    by (elim conjE disjE exE) simp_all
  then have "\<not> panicking (pc s) \<longrightarrow> Attach \<notin> closed s"
  proof cases
    case path
    let ?s2 = "\<lparr>pc = Finishing (kill_path (slot pre)), closed = {}\<rparr> :: ('a killer_loc, 'a) goroutine"
    have "pc ?s2 = Finishing (kill_path (slot pre))"
      "run_ops (kill_path (slot pre)) (closed ?s2) = Inr {Attach, Kill, Dead}"
      by (simp_all add: kill_path_runs)
    from run_deterministic_state [OF this path] obtain rest cl'
      where r: "kill_path (slot pre) = post @ rest" "run_ops post {} = Inr cl'"
        "closed s = cl'"
      by auto
    from slot_held_on_kill_path [OF r(1) sl] have "post = [] \<or> post = [Send (KillOf v)]" by simp
    with r(2) have "cl' = {}" by auto
    with r(3) show ?thesis by simp
  next
    case doomed
    from killer_doomed [OF doomed]
    consider "closed s = {}"
      | rest where "pc s = Panicking SendOnClosedChannel rest"
      | p where "pc s = Panicked p"
      by (elim conjE disjE exE) simp_all
    then show ?thesis by cases simp_all
  qed
  with st show ?thesis by simp
qed

lemma killer_reattach:
  assumes "run killer_control acts newKiller = Some s" and "slot acts = Some v"
    and "Recv Kill \<notin> set acts"
  shows "run killer_control (acts @ [Recv (DetachOf v)]) newKiller = Some (start Idle) \<and>
         offer killer_control (start Idle) Attach (RecvVal Attach w) = Received \<and>
         run killer_control (acts @ [Recv (DetachOf v), RecvVal Attach w]) newKiller
           = Some (start (Attached w))"
proof -
  from killer_before_kill [OF assms(1,3)] assms(2)
  have c: "closed s = {}" and "pc s = Loop (Attached v) \<or> pc s = Loop (AttachedClosed v)"
    by simp_all
  then have "step killer_control s (Recv (DetachOf v)) = Some (start Idle)"
    by (auto simp: perform_def start_def)
  with assms(1) show ?thesis
    by (simp add: run_append offer_def start_def perform_def)
qed

text \<open>
  C5. While a victim holds the slot of an attach-protocol controller, a send of a second
  victim on the attach channel is never received, and as long as the controller is not
  panicking the send blocks: it is neither received nor answered with a panic. If the
  controller has not received kill, then once the first victim has detached the
  controller is back at its outer select, where the same send is received and the second
  victim becomes the attached one. A controller that has received kill never receives on
  the attach channel again.
\<close>

theorem attach_single_owner:
  "run killer_control acts newKiller = Some s \<Longrightarrow>
   (slot acts = Some v \<longrightarrow> offer killer_control s Attach (RecvVal Attach w) \<noteq> Received) \<and>
   (slot acts = Some v \<and> \<not> panicking (pc s) \<longrightarrow>
      offer killer_control s Attach (RecvVal Attach w) = Blocks) \<and>
   (slot acts = Some v \<and> Recv Kill \<notin> set acts \<longrightarrow>
      run killer_control (acts @ [Recv (DetachOf v)]) newKiller = Some (start Idle) \<and>
      offer killer_control (start Idle) Attach (RecvVal Attach w) = Received \<and>
      run killer_control (acts @ [Recv (DetachOf v), RecvVal Attach w]) newKiller
        = Some (start (Attached w))) \<and>
   (Recv Kill \<in> set acts \<longrightarrow> offer killer_control s Attach (RecvVal Attach w) \<noteq> Received)"
proof (intro conjI impI)
  assume r: "run killer_control acts newKiller = Some s"
  { assume "slot acts = Some v"
    from killer_occupied [OF r this, of w]
    show "offer killer_control s Attach (RecvVal Attach w) \<noteq> Received"
      by (simp add: offer_def) }
  { assume "slot acts = Some v \<and> \<not> panicking (pc s)"
    then have h: "slot acts = Some v" "\<not> panicking (pc s)" by simp_all
    from killer_occupied [OF r h(1), of w] h(2)
    show "offer killer_control s Attach (RecvVal Attach w) = Blocks"
      by (simp add: offer_def) }
  { assume "slot acts = Some v \<and> Recv Kill \<notin> set acts"
    then have h: "slot acts = Some v" "Recv Kill \<notin> set acts" by simp_all
    from killer_reattach [OF r h, of w]
    show "run killer_control (acts @ [Recv (DetachOf v)]) newKiller = Some (start Idle)"
      and "offer killer_control (start Idle) Attach (RecvVal Attach w) = Received"
      and "run killer_control (acts @ [Recv (DetachOf v), RecvVal Attach w]) newKiller
        = Some (start (Attached w))" by simp_all }
  { assume "Recv Kill \<in> set acts"
    from killer_no_attach_after_kill [OF r this, of w]
    show "offer killer_control s Attach (RecvVal Attach w) \<noteq> Received"
      by (simp add: offer_def) }
qed

theorem attach_single_owner_witness:
  "run killer_control [RecvVal Attach (1::nat)] newKiller = Some (start (Attached 1)) \<and>
   slot [RecvVal Attach (1::nat)] = Some 1 \<and>
   \<not> panicking (pc (start (Attached (1::nat)) :: (nat killer_loc, nat) goroutine)) \<and>
   offer killer_control (start (Attached (1::nat))) Attach (RecvVal Attach 2) = Blocks \<and>
   run killer_control [RecvVal Attach (1::nat), Recv (DetachOf 1), RecvVal Attach 2] newKiller
     = Some (start (Attached 2)) \<and>
   run killer_control [RecvVal Attach (1::nat), Recv Kill] newKiller
     = Some \<lparr>pc = Finishing [Send (KillOf 1), Recv (DetachOf 1), Recv (DeadOf 1),
                              Close Attach, Close Kill, Send Dead, Close Dead],
             closed = {}\<rparr> \<and>
   offer killer_control
     \<lparr>pc = Finishing [Send (KillOf (1::nat)), Recv (DetachOf 1), Recv (DeadOf 1),
                      Close Attach, Close Kill, Send Dead, Close Dead], closed = {}\<rparr>
     Attach (RecvVal Attach 2) \<noteq> Received"
proof -
  have r: "run killer_control [RecvVal Attach (1::nat)] newKiller = Some (start (Attached 1))"
    by (simp add: start_def perform_def)
  have sl: "slot [RecvVal Attach (1::nat)] = Some 1" by (simp add: slot_def)
  have np: "\<not> panicking (pc (start (Attached (1::nat)) :: (nat killer_loc, nat) goroutine))"
    by (simp add: start_def)
  have r2: "run killer_control [RecvVal Attach (1::nat), Recv Kill] newKiller
     = Some \<lparr>pc = Finishing [Send (KillOf 1), Recv (DetachOf 1), Recv (DeadOf 1),
                              Close Attach, Close Kill, Send Dead, Close Dead],
             closed = {}\<rparr>"
    by (simp add: start_def perform_def killer_defers_def on_return_def)
  from attach_single_owner [OF r, of 1 2] attach_single_owner [OF r2, of 1 2] sl r r2 np
  show ?thesis by simp
qed

text \<open>
  The kill path, for the second half of C5 as it was stated: the controller is killed
  with victim 1 attached and receives the detach signal of victim 1. The slot is then
  free, yet the send of victim 2 on the attach channel still blocks, and after the
  controller has closed the attach channel the send panics.
\<close>

theorem attach_after_kill_counterexample:
  "run killer_control [RecvVal Attach (1::nat), Recv Kill, Send (KillOf 1), Recv (DetachOf 1)] newKiller
     = Some \<lparr>pc = Finishing [Recv (DeadOf 1), Close Attach, Close Kill, Send Dead, Close Dead], closed = {}\<rparr> \<and>
   slot [RecvVal Attach (1::nat), Recv Kill, Send (KillOf 1), Recv (DetachOf 1)] = None \<and>
   offer killer_control \<lparr>pc = Finishing [Recv (DeadOf (1::nat)), Close Attach, Close Kill, Send Dead, Close Dead], closed = {}\<rparr>
     Attach (RecvVal Attach 2) = Blocks \<and>
   run killer_control [RecvVal Attach (1::nat), Recv Kill, Send (KillOf 1), Recv (DetachOf 1), Recv (DeadOf 1), Close Attach] newKiller
     = Some \<lparr>pc = Finishing [Close Kill, Send Dead, Close Dead], closed = {Attach}\<rparr> \<and>
   offer killer_control \<lparr>pc = Finishing [Close Kill, Send Dead, Close Dead], closed = {Attach}\<rparr>
     Attach (RecvVal Attach (2::nat)) = Panics SendOnClosedChannel"
  by (simp add: start_def perform_def killer_defers_def on_return_def slot_def offer_def)

text \<open>
  One-shot shutdown of the controller, in every state in which it is not panicking.
\<close>

lemma killer_one_shot:
  assumes "run killer_control acts newKiller = Some s" and "Recv Kill \<in> set acts"
    and "\<not> panicking (pc s)"
  shows "one_shot killer_control acts s"
proof -
  from assms(2) obtain pre post where a: "acts = pre @ Recv Kill # post" "Recv Kill \<notin> set pre"
    by (auto dest: split_list_first)
  from killer_first_kill [OF assms(1) [unfolded a(1)] a(2)]
  have clean: "\<forall>c. Close c \<notin> set pre" "Send Dead \<notin> set pre" by simp_all
  from killer_first_kill [OF assms(1) [unfolded a(1)] a(2)]
  consider (path) "run killer_control post \<lparr>pc = Finishing (kill_path (slot pre)), closed = {}\<rparr> = Some s"
    | (doomed) v where "run killer_control post \<lparr>pc = Loop (KillingClosed v), closed = {}\<rparr> = Some s"
    by (elim conjE disjE exE) simp_all
  then show ?thesis
  proof cases
    case path
    from one_shot_after [OF clean a(2) refl kill_path_ok path] a(1) show ?thesis by simp
  next
    case doomed
    from killer_doomed [OF doomed] assms(3)
    have p: "post = []" "pc s = Loop (KillingClosed v)" "closed s = {}" by auto
    have "step killer_control s (Recv Kill) = None" using p(2) by simp
    then have "offer killer_control s Kill (Recv Kill) = Blocks" using p(3) by (simp add: offer_def)
    with p a clean show ?thesis
      by (simp add: one_shot_def count_list_0_iff)
  qed
qed

text \<open>
  The controller panics on one operation only: the send of kill to the attached victim,
  after the victim has closed its kill channel. What it runs afterwards is an initial
  part of its deferred calls.
\<close>

lemma killer_closed_seen:
  assumes "run killer_control acts newKiller = Some s" and "Recv Kill \<notin> set acts"
    and "pc s = Loop (AttachedClosed v)"
  shows "Closes (KillOf v) \<in> set acts"
proof (cases acts rule: rev_cases)
  case Nil
  with assms(1,3) show ?thesis by (auto simp: start_def)
next
  case (snoc xs a)
  from assms(1) snoc obtain s1 where s1: "run killer_control xs newKiller = Some s1"
    "step killer_control s1 a = Some s" by (auto simp: run_snoc split: option.splits)
  from assms(2) snoc have nk: "Recv Kill \<notin> set xs" by simp
  from killer_before_kill [OF s1(1) nk]
  consider (idle) "pc s1 = Loop Idle" "closed s1 = {}"
    | (att) u where "pc s1 = Loop (Attached u)" "closed s1 = {}"
    | (cl) u where "pc s1 = Loop (AttachedClosed u)" "closed s1 = {}"
    by (elim conjE disjE exE) simp_all
  then show ?thesis
  proof cases
    case idle
    from step_Idle [OF s1(2) idle] assms(3) show ?thesis by auto
  next
    case att
    from step_Attached [OF s1(2) att] assms(3) snoc show ?thesis by auto
  next
    case cl
    from step_AttachedClosed [OF s1(2) cl] assms(3) show ?thesis by auto
  qed
qed

lemma finishing_not_panicking:
  assumes "pc s0 = Finishing (kill_path h)" and "closed s0 = {}"
    and "run killer_control post s0 = Some s"
  shows "\<not> panicking (pc s)"
proof -
  from assms(2) have "run_ops (kill_path h) (closed s0) = Inr {Attach, Kill, Dead}"
    by (simp add: kill_path_runs)
  from run_deterministic_state [OF assms(1) this assms(3)]
  obtain rest cl' where "s = \<lparr>pc = Finishing rest, closed = cl'\<rparr>" by blast
  then show ?thesis by simp
qed

lemma killer_panic_trace:
  assumes "run killer_control acts newKiller = Some s" and "Recv Kill \<in> set acts"
    and "panicking (pc s)"
  shows "\<exists>pre v xs. acts = pre @ Recv Kill # Send (KillOf v) # xs \<and> Recv Kill \<notin> set pre \<and>
           slot pre = Some v \<and> Closes (KillOf v) \<in> set pre \<and> prefix xs (kill_path None) \<and>
           (\<forall>c. Close c \<notin> set pre) \<and> Send Dead \<notin> set pre \<and>
           step killer_control s (Recv Kill) = None"
proof -
  from assms(2) obtain pre post where a: "acts = pre @ Recv Kill # post" "Recv Kill \<notin> set pre"
    by (auto dest: split_list_first)
  with assms(1) obtain s1 s2 where s: "run killer_control pre newKiller = Some s1"
    "step killer_control s1 (Recv Kill) = Some s2" "run killer_control post s2 = Some s"
    by (auto simp: run_append split: option.splits)
  from killer_before_kill [OF s(1) a(2)]
  have clean: "\<forall>c. Close c \<notin> set pre" "Send Dead \<notin> set pre" by simp_all
  from killer_before_kill [OF s(1) a(2)]
  consider (idle) "pc s1 = Loop Idle" "closed s1 = {}"
    | (att) u where "pc s1 = Loop (Attached u)" "closed s1 = {}"
    | (cl) u where "pc s1 = Loop (AttachedClosed u)" "closed s1 = {}" "slot pre = Some u"
    by (elim conjE disjE exE) simp_all
  then show ?thesis
  proof cases
    case idle
    from step_Idle [OF s(2) idle]
    have "pc s2 = Finishing (kill_path None)" "closed s2 = {}" by auto
    from finishing_not_panicking [OF this s(3)] assms(3) show ?thesis by simp
  next
    case att
    from step_Attached [OF s(2) att]
    have "pc s2 = Finishing (kill_path (Some u))" "closed s2 = {}" by auto
    from finishing_not_panicking [OF this s(3)] assms(3) show ?thesis by simp
  next
    case cl
    from step_AttachedClosed [OF s(2) cl(1,2)]
    have s2: "pc s2 = Loop (KillingClosed u)" "closed s2 = {}" by auto
    have seen: "Closes (KillOf u) \<in> set pre" using killer_closed_seen [OF s(1) a(2) cl(1)] .
    show ?thesis
    proof (cases post)
      case Nil
      with s(3) s2 assms(3) show ?thesis by simp
    next
      case (Cons b xs)
      with s(3) obtain s3 where s3: "step killer_control s2 b = Some s3"
        "run killer_control xs s3 = Some s" by (auto split: option.splits)
      from s3(1) s2 have b: "b = Send (KillOf u)"
        and p3: "pc s3 = Panicking SendOnClosedChannel (kill_path None)"
        by (auto simp: kill_path_on_return split: if_splits)
      from panicking_rest [OF p3 s3(2)]
      have pre_xs: "prefix xs (kill_path None)"
        and "(\<exists>rest. pc s = Panicking SendOnClosedChannel rest \<and> set rest \<subseteq> set (kill_path None))
             \<or> (\<exists>p. pc s = Panicked p)" by simp_all
      then consider rest where "pc s = Panicking SendOnClosedChannel rest"
          "set rest \<subseteq> set (kill_path None)"
        | p where "pc s = Panicked p"
        by (elim conjE disjE exE) simp_all
      then have st: "step killer_control s (Recv Kill) = None"
      proof cases
        case 1
        have "Recv Kill \<notin> set (kill_path None)" by simp
        with 1(2) have n: "Recv Kill \<notin> set rest" by blast
        show ?thesis
        proof (cases rest)
          case Nil
          with 1(1) show ?thesis by simp
        next
          case (Cons c cs)
          with n have "Recv Kill \<noteq> c" by auto
          with 1(1) Cons show ?thesis by simp
        qed
      next
        case 2
        then show ?thesis by simp
      qed
      have "acts = pre @ Recv Kill # Send (KillOf u) # xs \<and> Recv Kill \<notin> set pre \<and>
           slot pre = Some u \<and> Closes (KillOf u) \<in> set pre \<and> prefix xs (kill_path None) \<and>
           (\<forall>c. Close c \<notin> set pre) \<and> Send Dead \<notin> set pre \<and>
           step killer_control s (Recv Kill) = None"
        using a Cons b cl(3) seen pre_xs clean st by simp
      then show ?thesis by (intro exI)
    qed
  qed
qed

lemma killer_panic_counts:
  assumes "Recv Kill \<notin> set pre" and "\<forall>c. Close c \<notin> set pre" and "Send Dead \<notin> set pre"
    and "prefix xs (kill_path None)"
  shows "count_list (pre @ Recv Kill # Send (KillOf v) # xs) (Recv Kill) = 1 \<and>
         count_list (pre @ Recv Kill # Send (KillOf v) # xs) (Send Dead) \<le> 1 \<and>
         (\<forall>c. count_list (pre @ Recv Kill # Send (KillOf v) # xs) (Close c) \<le> 1)"
proof -
  from assms(1-3) have pre0: "\<And>c. count_list pre (Close c) = 0"
    "count_list pre (Send Dead) = 0" "count_list pre (Recv Kill) = 0"
    by (simp_all add: count_list_0_iff)
  have k1: "count_list xs (Recv Kill) = 0"
    using count_list_prefix [OF assms(4), of "Recv Kill"] by simp
  have k2: "count_list xs (Send Dead) \<le> 1"
    using count_list_prefix [OF assms(4), of "Send Dead"] by simp
  have k3: "count_list xs (Close c) \<le> 1" for c
    using count_list_prefix [OF assms(4), of "Close c"] by (simp split: if_splits)
  show ?thesis using pre0 k1 k2 k3 by simp
qed

lemma killer_panic_only_on_closed_victim:
  assumes "run killer_control acts newKiller = Some s" and "Recv Kill \<in> set acts"
    and "panicking (pc s)"
  shows "(\<exists>pre v xs. acts = pre @ Recv Kill # Send (KillOf v) # xs \<and> slot pre = Some v \<and>
            Closes (KillOf v) \<in> set pre) \<and>
         count_list acts (Recv Kill) = 1 \<and> count_list acts (Send Dead) \<le> 1 \<and>
         (\<forall>c. count_list acts (Close c) \<le> 1) \<and>
         offer killer_control s Kill (Recv Kill)
           = (if Kill \<in> closed s then Panics SendOnClosedChannel else Blocks)"
proof -
  from killer_panic_trace [OF assms] obtain pre v xs
    where t: "acts = pre @ Recv Kill # Send (KillOf v) # xs" "Recv Kill \<notin> set pre"
      "slot pre = Some v" "Closes (KillOf v) \<in> set pre" "prefix xs (kill_path None)"
      "\<forall>c. Close c \<notin> set pre" "Send Dead \<notin> set pre"
      "step killer_control s (Recv Kill) = None"
    by (elim exE conjE)
  from t(1,3,4) have e: "\<exists>pre v xs. acts = pre @ Recv Kill # Send (KillOf v) # xs \<and>
      slot pre = Some v \<and> Closes (KillOf v) \<in> set pre" by (intro exI conjI)
  have c: "count_list acts (Recv Kill) = 1 \<and> count_list acts (Send Dead) \<le> 1 \<and>
         (\<forall>c. count_list acts (Close c) \<le> 1)"
    unfolding t(1) by (rule killer_panic_counts [OF t(2,6,7,5)])
  from t(8) have o: "offer killer_control s Kill (Recv Kill)
           = (if Kill \<in> closed s then Panics SendOnClosedChannel else Blocks)"
    by (simp add: offer_def)
  from e c o show ?thesis by (intro conjI) simp_all
qed

section \<open>Shutdown of an Env and of a Mux\<close>


lemma newEnv_before_kill:
  "run (newEnv_control child) acts (start Selecting) = Some s \<Longrightarrow> Recv Kill \<notin> set acts \<Longrightarrow>
   (\<exists>loc. s = start loc) \<and> (\<forall>c. Close c \<notin> set acts) \<and> Send Dead \<notin> set acts"
proof (induction acts arbitrary: s rule: rev_induct)
  case Nil
  then show ?case by auto
next
  case (snoc a acts)
  from snoc.prems obtain s1 where s1: "run (newEnv_control child) acts (start Selecting) = Some s1"
    "step (newEnv_control child) s1 a = Some s" by (auto simp: run_snoc split: option.splits)
  from snoc.prems(2) have nk: "Recv Kill \<notin> set acts" "a \<noteq> Recv Kill" by auto
  from snoc.IH [OF s1(1) nk(1)] obtain loc
    where ih: "s1 = start loc" "\<forall>c. Close c \<notin> set acts" "Send Dead \<notin> set acts" by blast
  show ?case
  proof (cases loc)
    case Selecting
    with ih s1(2) nk(2) show ?thesis
      by (cases a) (auto simp: start_def perform_def split: if_splits)
  next
    case FilteringEvent
    with ih s1(2) nk(2) show ?thesis
      by (auto simp: start_def perform_def split: if_splits)
  next
    case FilteringDraw
    with ih s1(2) nk(2) show ?thesis
      by (auto simp: start_def perform_def split: if_splits)
  qed
qed

lemma newEnv_on_return: "on_return (newEnv_defers child) = newEnv_shutdown child"
  by (simp add: on_return_def newEnv_defers_def newEnv_shutdown_def)

lemma newEnv_on_kill:
  assumes "step (newEnv_control child) (start loc) (Recv Kill) = Some s2"
  shows "s2 = \<lparr>pc = Finishing (newEnv_shutdown child), closed = {}\<rparr>"
  using assms
  by (cases loc) (auto simp: start_def perform_def newEnv_on_return split: if_splits)

lemma newEnv_shutdown_runs:
  "run_ops (newEnv_shutdown child) {} = Inr {Kill, DrawChan, EventsEnqueue, DetachFromParent, Dead}"
  by (simp add: newEnv_shutdown_def insert_commute)

lemma newEnv_shutdown_ok: "shutdown_ok (newEnv_shutdown child)"
  unfolding shutdown_ok_def by (simp add: newEnv_shutdown_runs) (simp add: newEnv_shutdown_def)

lemma start_eq: "pc s = Loop loc \<Longrightarrow> closed s = {} \<Longrightarrow> s = start loc"
  by (cases s) (simp add: start_def)

lemma newEnv_one_shot:
  assumes "run (newEnv_control child) acts (start Selecting) = Some s" and "Recv Kill \<in> set acts"
  shows "one_shot (newEnv_control child) acts s"
proof (rule one_shot_generic [OF _ assms])
  fix pre and s1 s2 :: "(env_loc, 'a) goroutine"
  assume r: "run (newEnv_control child) pre (start Selecting) = Some s1" "Recv Kill \<notin> set pre"
    and st: "step (newEnv_control child) s1 (Recv Kill) = Some s2"
  from newEnv_before_kill [OF r]
  have clean: "(\<forall>c. Close c \<notin> set pre) \<and> Send Dead \<notin> set pre" by simp
  from newEnv_before_kill [OF r] obtain loc where "s1 = start loc" by blast
  with st have "step (newEnv_control child) (start loc) (Recv Kill) = Some s2"
    by (simp only:)
  then have "s2 = \<lparr>pc = Finishing (newEnv_shutdown child), closed = {}\<rparr>"
    by (rule newEnv_on_kill)
  then have "s2 = \<lparr>pc = Finishing (newEnv_shutdown child), closed = {}\<rparr> \<and>
      shutdown_ok (newEnv_shutdown child)"
    using newEnv_shutdown_ok [of child] by (rule conjI)
  then have "\<exists>path. s2 = \<lparr>pc = Finishing path, closed = {}\<rparr> \<and> shutdown_ok path"
    by (rule exI)
  with clean show "(\<forall>c. Close c \<notin> set pre) \<and> Send Dead \<notin> set pre \<and>
      (\<exists>path. s2 = \<lparr>pc = Finishing path, closed = {}\<rparr> \<and> shutdown_ok path)"
    by simp
qed

text \<open>
  Until it receives kill, the Mux coordinator is at its select with nothing closed, or a
  failed remove has made it panic: it is then running the deferred calls of
  \<^verbatim>\<open>NewMux\<close>, none of which receives kill.
\<close>

lemma NewMux_shutdown_no_kill: "Recv Kill \<notin> set (NewMux_shutdown cs)"
  by (auto simp: NewMux_shutdown_def)

lemma NewMux_on_return: "on_return (NewMux_defers cs) = NewMux_shutdown cs"
  by (simp add: on_return_def NewMux_defers_def NewMux_shutdown_def)

lemma mux_step_select:
  assumes "step mux_control s a = Some s'" and "pc s = Loop loc" and "closed s = {}"
    and "a \<noteq> Recv Kill"
  shows "((\<exists>loc'. pc s' = Loop loc' \<and> closed s' = {}) \<and> (\<forall>c. a \<noteq> Close c) \<and> a \<noteq> Send Dead) \<or>
         (\<exists>q cs. pc s' = Panicking q (NewMux_shutdown cs))"
proof (cases loc)
  case (MuxSelect st)
  with assms show ?thesis
    by (cases a)
      (auto simp: perform_def NewMux_on_return split: if_splits sum.splits)
next
  case (MuxForwardDraw st)
  with assms show ?thesis
    by (auto simp: perform_def split: if_splits)
qed

lemma mux_before_kill:
  "run mux_control acts (start (MuxSelect st0)) = Some s \<Longrightarrow> Recv Kill \<notin> set acts \<Longrightarrow>
   ((\<exists>loc. pc s = Loop loc \<and> closed s = {}) \<and> (\<forall>c. Close c \<notin> set acts) \<and> Send Dead \<notin> set acts) \<or>
   (\<exists>q rest. pc s = Panicking q rest \<and> Recv Kill \<notin> set rest) \<or>
   (\<exists>q. pc s = Panicked q)"
proof (induction acts arbitrary: s rule: rev_induct)
  case Nil
  then have "pc s = Loop (MuxSelect st0)" "closed s = {}" by (auto simp: start_def)
  then show ?case by simp
next
  case (snoc a acts)
  from snoc.prems obtain s1 where s1: "run mux_control acts (start (MuxSelect st0)) = Some s1"
    "step mux_control s1 a = Some s" by (auto simp: run_snoc split: option.splits)
  from snoc.prems(2) have nk: "Recv Kill \<notin> set acts" "a \<noteq> Recv Kill" by auto
  from snoc.IH [OF s1(1) nk(1)]
  consider (select) loc where "pc s1 = Loop loc" "closed s1 = {}"
      "\<forall>c. Close c \<notin> set acts" "Send Dead \<notin> set acts"
    | (unwinding) q rest where "pc s1 = Panicking q rest" "Recv Kill \<notin> set rest"
    | (gone) q where "pc s1 = Panicked q"
    by (elim conjE disjE exE) simp_all
  then show ?case
  proof cases
    case select
    from mux_step_select [OF s1(2) select(1,2) nk(2)]
    consider loc' where "pc s = Loop loc'" "closed s = {}" "\<forall>c. a \<noteq> Close c" "a \<noteq> Send Dead"
      | q cs where "pc s = Panicking q (NewMux_shutdown cs)"
      by (elim conjE disjE exE) simp_all
    then show ?thesis
    proof cases
      case 1
      with select(3,4) show ?thesis by auto
    next
      case 2
      with NewMux_shutdown_no_kill [of cs] show ?thesis by simp
    qed
  next
    case unwinding
    show ?thesis
    proof (cases rest)
      case Nil
      with unwinding(1) s1(2) show ?thesis by simp
    next
      case (Cons b bs)
      with unwinding(2) have "Recv Kill \<notin> set bs" by simp
      with unwinding(1) s1(2) Cons show ?thesis
        by (auto simp: perform_def split: if_splits sum.splits)
    qed
  next
    case gone
    with s1(2) show ?thesis by simp
  qed
qed

lemma run_ops_kill_children: "run_ops (map (\<lambda>child. Send (KillOf child)) cs) {} = Inr {}"
  by (induction cs) simp_all

lemma run_ops_await_children: "run_ops (map (\<lambda>child. Recv RemoveChild) cs) cl = Inr cl"
  by (induction cs) simp_all

lemma NewMux_shutdown_runs:
  "run_ops (NewMux_shutdown cs) {} = Inr {DrawChan, AddChild, RemoveChild, Kill, DetachFromParent, Dead}"
  by (simp add: NewMux_shutdown_def run_ops_append run_ops_kill_children run_ops_await_children
      insert_commute)

lemma count_kill_children [simp]: "count_list (map (\<lambda>child. Send (KillOf child)) cs) (Send Dead) = 0"
  by (induction cs) simp_all

lemma count_await_children [simp]: "count_list (map (\<lambda>child. Recv RemoveChild) cs) (Send Dead) = 0"
  by (induction cs) simp_all

lemma NewMux_shutdown_ok: "shutdown_ok (NewMux_shutdown cs)"
  unfolding shutdown_ok_def
proof (intro conjI)
  show "Recv Kill \<notin> set (NewMux_shutdown cs)" by (auto simp: NewMux_shutdown_def)
  show "count_list (NewMux_shutdown cs) (Send Dead) = 1" by (simp add: NewMux_shutdown_def)
  show "\<exists>cl. run_ops (NewMux_shutdown cs) {} = Inr cl \<and> Kill \<in> cl"
    by (simp add: NewMux_shutdown_runs)
qed

lemma mux_on_kill:
  assumes "step mux_control (start loc) (Recv Kill) = Some s2"
  shows "\<exists>cs. s2 = \<lparr>pc = Finishing (NewMux_shutdown cs), closed = {}\<rparr>"
  using assms
  by (cases loc) (auto simp: start_def perform_def NewMux_on_return split: if_splits)

lemma mux_one_shot:
  assumes "run mux_control acts (start (MuxSelect st0)) = Some s" and "Recv Kill \<in> set acts"
  shows "one_shot mux_control acts s"
proof (rule one_shot_generic [OF _ assms])
  fix pre and s1 s2 :: "(mux_loc, muxEnv) goroutine"
  assume r: "run mux_control pre (start (MuxSelect st0)) = Some s1" "Recv Kill \<notin> set pre"
    and st: "step mux_control s1 (Recv Kill) = Some s2"
  from mux_before_kill [OF r]
  consider (select) loc where "pc s1 = Loop loc" "closed s1 = {}"
      "\<forall>c. Close c \<notin> set pre" "Send Dead \<notin> set pre"
    | (unwinding) q rest where "pc s1 = Panicking q rest" "Recv Kill \<notin> set rest"
    | (gone) q where "pc s1 = Panicked q"
    by (elim conjE disjE exE) simp_all
  then show "(\<forall>c. Close c \<notin> set pre) \<and> Send Dead \<notin> set pre \<and>
      (\<exists>path. s2 = \<lparr>pc = Finishing path, closed = {}\<rparr> \<and> shutdown_ok path)"
  proof cases
    case select
    from start_eq [OF select(1,2)] st
    have "step mux_control (start loc) (Recv Kill) = Some s2" by (simp only:)
    from mux_on_kill [OF this]
    obtain cs where "s2 = \<lparr>pc = Finishing (NewMux_shutdown cs), closed = {}\<rparr>" ..
    then have "s2 = \<lparr>pc = Finishing (NewMux_shutdown cs), closed = {}\<rparr> \<and>
        shutdown_ok (NewMux_shutdown cs)"
      using NewMux_shutdown_ok [of cs] by (rule conjI)
    then have "\<exists>path. s2 = \<lparr>pc = Finishing path, closed = {}\<rparr> \<and> shutdown_ok path"
      by (rule exI)
    with select(3,4) show ?thesis by simp
  next
    case unwinding
    have False
    proof (cases rest)
      case Nil
      with unwinding(1) st show ?thesis by simp
    next
      case (Cons b bs)
      with unwinding(2) have "Recv Kill \<noteq> b" by auto
      with unwinding(1) st Cons show ?thesis by simp
    qed
    then show ?thesis ..
  next
    case gone
    with st have False by simp
    then show ?thesis ..
  qed
qed

lemma MakeEnv_before_kill:
  "run (MakeEnv_control attached) acts (start ChildSelect) = Some s \<Longrightarrow> Recv Kill \<notin> set acts \<Longrightarrow>
   (\<exists>loc. s = start loc) \<and> (\<forall>c. Close c \<notin> set acts) \<and> Send Dead \<notin> set acts"
proof (induction acts arbitrary: s rule: rev_induct)
  case Nil
  then show ?case by auto
next
  case (snoc a acts)
  from snoc.prems obtain s1 where s1: "run (MakeEnv_control attached) acts (start ChildSelect) = Some s1"
    "step (MakeEnv_control attached) s1 a = Some s" by (auto simp: run_snoc split: option.splits)
  from snoc.prems(2) have nk: "Recv Kill \<notin> set acts" "a \<noteq> Recv Kill" by auto
  from snoc.IH [OF s1(1) nk(1)] obtain loc
    where ih: "s1 = start loc" "\<forall>c. Close c \<notin> set acts" "Send Dead \<notin> set acts" by blast
  show ?case
  proof (cases loc)
    case ChildSelect
    with ih s1(2) nk(2) show ?thesis
      by (cases a) (auto simp: start_def perform_def split: if_splits)
  next
    case ChildForwardDraw
    with ih s1(2) nk(2) show ?thesis
      by (auto simp: start_def perform_def split: if_splits)
  qed
qed

lemma MakeEnv_on_return: "on_return (MakeEnv_defers attached) = MakeEnv_shutdown attached"
  by (simp add: on_return_def MakeEnv_defers_def MakeEnv_shutdown_def)

lemma MakeEnv_on_kill:
  assumes "step (MakeEnv_control attached) (start loc) (Recv Kill) = Some s2"
  shows "s2 = \<lparr>pc = Finishing (MakeEnv_shutdown attached), closed = {}\<rparr>"
  using assms
  by (cases loc) (auto simp: start_def perform_def MakeEnv_on_return split: if_splits)

lemma MakeEnv_shutdown_runs:
  "run_ops (MakeEnv_shutdown attached) {} = Inr {EventsIn, DrawChan, Kill, Dead}"
  by (simp add: MakeEnv_shutdown_def insert_commute)

lemma MakeEnv_shutdown_ok: "shutdown_ok (MakeEnv_shutdown attached)"
  unfolding shutdown_ok_def by (simp add: MakeEnv_shutdown_runs) (simp add: MakeEnv_shutdown_def)

lemma MakeEnv_one_shot:
  assumes "run (MakeEnv_control attached) acts (start ChildSelect) = Some s" and "Recv Kill \<in> set acts"
  shows "one_shot (MakeEnv_control attached) acts s"
proof (rule one_shot_generic [OF _ assms])
  fix pre and s1 s2 :: "(child_loc, 'a) goroutine"
  assume r: "run (MakeEnv_control attached) pre (start ChildSelect) = Some s1" "Recv Kill \<notin> set pre"
    and st: "step (MakeEnv_control attached) s1 (Recv Kill) = Some s2"
  from MakeEnv_before_kill [OF r]
  have clean: "(\<forall>c. Close c \<notin> set pre) \<and> Send Dead \<notin> set pre" by simp
  from MakeEnv_before_kill [OF r] obtain loc where "s1 = start loc" by blast
  with st have "step (MakeEnv_control attached) (start loc) (Recv Kill) = Some s2"
    by (simp only:)
  then have "s2 = \<lparr>pc = Finishing (MakeEnv_shutdown attached), closed = {}\<rparr>"
    by (rule MakeEnv_on_kill)
  then have "s2 = \<lparr>pc = Finishing (MakeEnv_shutdown attached), closed = {}\<rparr> \<and>
      shutdown_ok (MakeEnv_shutdown attached)"
    using MakeEnv_shutdown_ok [of attached] by (rule conjI)
  then have "\<exists>path. s2 = \<lparr>pc = Finishing path, closed = {}\<rparr> \<and> shutdown_ok path"
    by (rule exI)
  with clean show "(\<forall>c. Close c \<notin> set pre) \<and> Send Dead \<notin> set pre \<and>
      (\<exists>path. s2 = \<lparr>pc = Finishing path, closed = {}\<rparr> \<and> shutdown_ok path)"
    by simp
qed

section \<open>The order of shutdown of an Env\<close>

lemma newEnv_kill_once:
  assumes "run (newEnv_control child) (pre @ Recv Kill # post) (start Selecting) = Some s"
  shows "Recv Kill \<notin> set pre"
proof
  assume "Recv Kill \<in> set pre"
  then have "count_list pre (Recv Kill) \<noteq> 0" by (simp add: count_list_0_iff)
  moreover from newEnv_one_shot [OF assms]
  have "count_list (pre @ Recv Kill # post) (Recv Kill) = 1" by (simp add: one_shot_def)
  ultimately show False by simp
qed

text \<open>
  C4. What the coordinator of an Env built by newEnv does after it has received kill
  is an initial part of this sequence, which it can run to its end: it starts the drain
  of the inbound draw channel and cascade-kills the attached sub-resource (kill sent to
  the child controller, the child's Dead received); then it closes the kill channel,
  the inbound draw channel and the outbound event queue; then the shutdown hook runs;
  then it signals detach to its parent and closes the detach channel; and only then it
  reports Dead and closes the Dead channel.
\<close>

theorem newEnv_shutdown_order:
  "run (newEnv_control child) (pre @ Recv Kill # post) (start Selecting) = Some s \<Longrightarrow>
   prefix post
     [GoDrain DrawChan, Send (KillOf child), Recv (DeadOf child),
      Close Kill, Close DrawChan, Close EventsEnqueue, Call Shutdown,
      Send DetachFromParent, Close DetachFromParent, Send Dead, Close Dead] \<and>
   run (newEnv_control child)
     (pre @ Recv Kill #
      [GoDrain DrawChan, Send (KillOf child), Recv (DeadOf child),
       Close Kill, Close DrawChan, Close EventsEnqueue, Call Shutdown,
       Send DetachFromParent, Close DetachFromParent, Send Dead, Close Dead]) (start Selecting)
   = Some \<lparr>pc = Finishing [],
           closed = {Kill, DrawChan, EventsEnqueue, DetachFromParent, Dead}\<rparr>"
proof -
  assume r: "run (newEnv_control child) (pre @ Recv Kill # post) (start Selecting) = Some s"
  then obtain s1 s2 where s: "run (newEnv_control child) pre (start Selecting) = Some s1"
    "step (newEnv_control child) s1 (Recv Kill) = Some s2" "run (newEnv_control child) post s2 = Some s"
    by (auto simp: run_append split: option.splits)
  from newEnv_before_kill [OF s(1) newEnv_kill_once [OF r]] obtain loc where l: "s1 = start loc"
    by blast
  from s(2) have "step (newEnv_control child) (start loc) (Recv Kill) = Some s2" unfolding l .
  then have s2: "s2 = \<lparr>pc = Finishing (newEnv_shutdown child), closed = {}\<rparr>"
    by (rule newEnv_on_kill)
  then have pc2: "pc s2 = Finishing (newEnv_shutdown child @ [])"
    and cl2: "run_ops (newEnv_shutdown child) (closed s2)
       = Inr {Kill, DrawChan, EventsEnqueue, DetachFromParent, Dead}"
    by (simp_all add: newEnv_shutdown_runs)
  from pc2 have "pc s2 = Finishing (newEnv_shutdown child)" by simp
  from finishing_prefix [OF this s(3)] have p: "prefix post (newEnv_shutdown child)" .
  from finishing_run [OF pc2 cl2]
  have "run (newEnv_control child) (newEnv_shutdown child) s2
      = Some \<lparr>pc = Finishing [], closed = {Kill, DrawChan, EventsEnqueue, DetachFromParent, Dead}\<rparr>" .
  with s(1,2) have "run (newEnv_control child) (pre @ Recv Kill # newEnv_shutdown child) (start Selecting)
      = Some \<lparr>pc = Finishing [], closed = {Kill, DrawChan, EventsEnqueue, DetachFromParent, Dead}\<rparr>"
    by (simp add: run_append)
  with p show ?thesis unfolding newEnv_shutdown_def by (rule conjI)
qed

theorem newEnv_shutdown_order_witness:
  "run (newEnv_control (0::nat))
     ([RecvEvent WiClose, Call FilterEvents] @ Recv Kill # [GoDrain DrawChan, Send (KillOf 0)])
     (start Selecting)
     = Some \<lparr>pc = Finishing [Recv (DeadOf 0),
      Close Kill, Close DrawChan, Close EventsEnqueue, Call Shutdown,
      Send DetachFromParent, Close DetachFromParent, Send Dead, Close Dead], closed = {}\<rparr> \<and>
   prefix [GoDrain DrawChan, Send (KillOf (0::nat))]
     [GoDrain DrawChan, Send (KillOf 0), Recv (DeadOf 0),
      Close Kill, Close DrawChan, Close EventsEnqueue, Call Shutdown,
      Send DetachFromParent, Close DetachFromParent, Send Dead, Close Dead] \<and>
   run (newEnv_control (0::nat))
     ([RecvEvent WiClose, Call FilterEvents] @ Recv Kill #
      [GoDrain DrawChan, Send (KillOf 0), Recv (DeadOf 0),
       Close Kill, Close DrawChan, Close EventsEnqueue, Call Shutdown,
       Send DetachFromParent, Close DetachFromParent, Send Dead, Close Dead]) (start Selecting)
   = Some \<lparr>pc = Finishing [],
           closed = {Kill, DrawChan, EventsEnqueue, DetachFromParent, Dead}\<rparr>"
proof -
  have r: "run (newEnv_control (0::nat))
     ([RecvEvent WiClose, Call FilterEvents] @ Recv Kill # [GoDrain DrawChan, Send (KillOf 0)])
     (start Selecting)
     = Some \<lparr>pc = Finishing [Recv (DeadOf 0),
      Close Kill, Close DrawChan, Close EventsEnqueue, Call Shutdown,
      Send DetachFromParent, Close DetachFromParent, Send Dead, Close Dead], closed = {}\<rparr>"
    by (simp add: start_def perform_def newEnv_defers_def on_return_def)
  from newEnv_shutdown_order [OF r] r show ?thesis by (simp only:) 
qed

text \<open>
  The order of C4 as it was stated, with the shutdown hook first: right after kill the
  hook is not what the coordinator runs, and when the hook does run the sub-resource
  has been killed and the kill channel, the draw channel and the event queue are closed.
\<close>

theorem newEnv_hook_first_counterexample:
  "run (newEnv_control (0::nat)) [Recv Kill, Call Shutdown] (start Selecting) = None \<and>
   run (newEnv_control (0::nat))
     [Recv Kill, GoDrain DrawChan, Send (KillOf 0), Recv (DeadOf 0),
      Close Kill, Close DrawChan, Close EventsEnqueue] (start Selecting)
   = Some \<lparr>pc = Finishing [Call Shutdown, Send DetachFromParent, Close DetachFromParent,
                            Send Dead, Close Dead],
           closed = {Kill, DrawChan, EventsEnqueue}\<rparr>"
  by (simp add: start_def perform_def newEnv_defers_def on_return_def insert_commute)

section \<open>Kill after kill\<close>

text \<open>
  C6. For the coordinator of an Env (of newEnv, and of a child Env made by the Mux) and
  the coordinator of a Mux, in every state after the kill signal was received: kill was
  received exactly once, Dead was emitted at most once (exactly once when the goroutine
  has exited), no channel was closed twice, and the coordinator is not panicking. A
  second kill signal is never received: its sender blocks while the kill channel is open
  and panics, with a send on a closed channel, once the coordinator has closed it. The
  same holds for the controller of the attach protocol (killer, attachHandler) in every
  state in which it is not panicking. When it is panicking, the run is the one of C3:
  the controller has sent kill to the attached victim after the victim had closed its
  kill channel; then, too, kill was received once, Dead was emitted at most once, no
  channel was closed twice, and a second kill signal is never received.
\<close>

theorem kill_is_one_shot:
  "(run killer_control acts1 newKiller = Some s1 \<and> Recv Kill \<in> set acts1 \<and>
      \<not> panicking (pc s1)
      \<longrightarrow> one_shot killer_control acts1 s1) \<and>
   (run killer_control acts5 newKiller = Some s5 \<and> Recv Kill \<in> set acts5 \<and>
      panicking (pc s5)
      \<longrightarrow> (\<exists>pre v xs. acts5 = pre @ Recv Kill # Send (KillOf v) # xs \<and> slot pre = Some v \<and>
             Closes (KillOf v) \<in> set pre) \<and>
          count_list acts5 (Recv Kill) = 1 \<and> count_list acts5 (Send Dead) \<le> 1 \<and>
          (\<forall>c. count_list acts5 (Close c) \<le> 1) \<and>
          offer killer_control s5 Kill (Recv Kill)
            = (if Kill \<in> closed s5 then Panics SendOnClosedChannel else Blocks)) \<and>
   (run (newEnv_control child) acts2 (start Selecting) = Some s2 \<and> Recv Kill \<in> set acts2
      \<longrightarrow> one_shot (newEnv_control child) acts2 s2) \<and>
   (run mux_control acts3 (start (MuxSelect st0)) = Some s3 \<and> Recv Kill \<in> set acts3
      \<longrightarrow> one_shot mux_control acts3 s3) \<and>
   (run (MakeEnv_control attached) acts4 (start ChildSelect) = Some s4 \<and> Recv Kill \<in> set acts4
      \<longrightarrow> one_shot (MakeEnv_control attached) acts4 s4)"
proof (intro conjI impI)
  assume "run killer_control acts1 newKiller = Some s1 \<and> Recv Kill \<in> set acts1 \<and>
    \<not> panicking (pc s1)"
  then show "one_shot killer_control acts1 s1" by (elim conjE) (rule killer_one_shot)
next
  assume "run killer_control acts5 newKiller = Some s5 \<and> Recv Kill \<in> set acts5 \<and>
    panicking (pc s5)"
  then have h: "run killer_control acts5 newKiller = Some s5" "Recv Kill \<in> set acts5"
    "panicking (pc s5)" by simp_all
  note p = killer_panic_only_on_closed_victim [OF h]
  from p show "\<exists>pre v xs. acts5 = pre @ Recv Kill # Send (KillOf v) # xs \<and> slot pre = Some v \<and>
      Closes (KillOf v) \<in> set pre" by (rule conjunct1)
  from p show "count_list acts5 (Recv Kill) = 1" by simp
  from p show "count_list acts5 (Send Dead) \<le> 1" by simp
  from p show "\<forall>c. count_list acts5 (Close c) \<le> 1" by simp
  from p show "offer killer_control s5 Kill (Recv Kill)
      = (if Kill \<in> closed s5 then Panics SendOnClosedChannel else Blocks)" by simp
next
  assume "run (newEnv_control child) acts2 (start Selecting) = Some s2 \<and> Recv Kill \<in> set acts2"
  then show "one_shot (newEnv_control child) acts2 s2" by (elim conjE) (rule newEnv_one_shot)
next
  assume "run mux_control acts3 (start (MuxSelect st0)) = Some s3 \<and> Recv Kill \<in> set acts3"
  then show "one_shot mux_control acts3 s3" by (elim conjE) (rule mux_one_shot)
next
  assume "run (MakeEnv_control attached) acts4 (start ChildSelect) = Some s4 \<and>
    Recv Kill \<in> set acts4"
  then show "one_shot (MakeEnv_control attached) acts4 s4"
    by (elim conjE) (rule MakeEnv_one_shot)
qed

theorem kill_is_one_shot_witness:
  "run killer_control [Recv Kill, Close Attach, Close Kill, Send Dead, Close Dead]
     (newKiller :: (nat killer_loc, nat) goroutine)
     = Some \<lparr>pc = Finishing [], closed = {Attach, Kill, Dead}\<rparr> \<and>
   one_shot killer_control [Recv Kill, Close Attach, Close Kill, Send Dead, Close Dead]
     (\<lparr>pc = Finishing [], closed = {Attach, Kill, Dead}\<rparr> :: (nat killer_loc, nat) goroutine) \<and>
   run killer_control
     [RecvVal Attach (1::nat), Closes (KillOf 1), Recv Kill, Send (KillOf 1), Close Attach]
     newKiller
     = Some \<lparr>pc = Panicking SendOnClosedChannel [Close Kill, Send Dead, Close Dead],
             closed = {Attach}\<rparr> \<and>
   (\<exists>pre v xs.
      [RecvVal Attach (1::nat), Closes (KillOf 1), Recv Kill, Send (KillOf 1), Close Attach]
        = pre @ Recv Kill # Send (KillOf v) # xs \<and>
      slot pre = Some v \<and> Closes (KillOf v) \<in> set pre) \<and>
   offer killer_control
     (\<lparr>pc = Panicking SendOnClosedChannel [Close Kill, Send Dead, Close Dead],
       closed = {Attach}\<rparr> :: (nat killer_loc, nat) goroutine)
     Kill (Recv Kill) = Blocks \<and>
   run (newEnv_control (0::nat)) [Recv Kill, GoDrain DrawChan, Send (KillOf 0)] (start Selecting)
     = Some \<lparr>pc = Finishing [Recv (DeadOf 0), Close Kill, Close DrawChan, Close EventsEnqueue,
         Call Shutdown, Send DetachFromParent, Close DetachFromParent, Send Dead, Close Dead],
         closed = {}\<rparr> \<and>
   one_shot (newEnv_control (0::nat)) [Recv Kill, GoDrain DrawChan, Send (KillOf 0)]
     \<lparr>pc = Finishing [Recv (DeadOf 0), Close Kill, Close DrawChan, Close EventsEnqueue,
         Call Shutdown, Send DetachFromParent, Close DetachFromParent, Send Dead, Close Dead],
         closed = {}\<rparr> \<and>
   run mux_control
     [RecvVal AddChild (muxEnv_at 0), Recv Kill, GoDrain DrawChan, Send (KillOf (muxEnv_at 0)),
      Recv RemoveChild, Call SizeClose, Close DrawChan, Close AddChild, Close RemoveChild,
      Close Kill] (start (MuxSelect NewMux))
     = Some \<lparr>pc = Finishing [Send DetachFromParent, Close DetachFromParent, Send Dead, Close Dead],
         closed = {DrawChan, AddChild, RemoveChild, Kill}\<rparr> \<and>
   one_shot mux_control
     [RecvVal AddChild (muxEnv_at 0), Recv Kill, GoDrain DrawChan, Send (KillOf (muxEnv_at 0)),
      Recv RemoveChild, Call SizeClose, Close DrawChan, Close AddChild, Close RemoveChild,
      Close Kill]
     \<lparr>pc = Finishing [Send DetachFromParent, Close DetachFromParent, Send Dead, Close Dead],
         closed = {DrawChan, AddChild, RemoveChild, Kill}\<rparr> \<and>
   run (MakeEnv_control (0::nat))
     [Recv DrawChan, Send MuxDraw, Recv Kill, GoDrain DrawChan, Send (KillOf 0), Recv (DeadOf 0),
      Send MuxRemoveChild, Close EventsIn, Close DrawChan, Close Kill, Send Dead, Close Dead]
     (start ChildSelect)
     = Some \<lparr>pc = Finishing [], closed = {EventsIn, DrawChan, Kill, Dead}\<rparr> \<and>
   one_shot (MakeEnv_control (0::nat))
     [Recv DrawChan, Send MuxDraw, Recv Kill, GoDrain DrawChan, Send (KillOf 0), Recv (DeadOf 0),
      Send MuxRemoveChild, Close EventsIn, Close DrawChan, Close Kill, Send Dead, Close Dead]
     \<lparr>pc = Finishing [], closed = {EventsIn, DrawChan, Kill, Dead}\<rparr>"
proof -
  let ?a1 = "[Recv Kill, Close Attach, Close Kill, Send Dead, Close Dead] :: nat op list"
  let ?s1 = "\<lparr>pc = Finishing [], closed = {Attach, Kill, Dead}\<rparr> :: (nat killer_loc, nat) goroutine"
  let ?a5 = "[RecvVal Attach 1, Closes (KillOf 1), Recv Kill, Send (KillOf 1), Close Attach]
      :: nat op list"
  let ?s5 = "\<lparr>pc = Panicking SendOnClosedChannel [Close Kill, Send Dead, Close Dead],
         closed = {Attach}\<rparr> :: (nat killer_loc, nat) goroutine"
  let ?a2 = "[Recv Kill, GoDrain DrawChan, Send (KillOf 0)] :: nat op list"
  let ?s2 = "\<lparr>pc = Finishing [Recv (DeadOf 0), Close Kill, Close DrawChan, Close EventsEnqueue,
         Call Shutdown, Send DetachFromParent, Close DetachFromParent, Send Dead, Close Dead],
         closed = {}\<rparr> :: (env_loc, nat) goroutine"
  let ?a3 = "[RecvVal AddChild (muxEnv_at 0), Recv Kill, GoDrain DrawChan, Send (KillOf (muxEnv_at 0)),
      Recv RemoveChild, Call SizeClose, Close DrawChan, Close AddChild, Close RemoveChild,
      Close Kill]"
  let ?s3 = "\<lparr>pc = Finishing [Send DetachFromParent, Close DetachFromParent, Send Dead, Close Dead],
         closed = {DrawChan, AddChild, RemoveChild, Kill}\<rparr> :: (mux_loc, muxEnv) goroutine"
  let ?a4 = "[Recv DrawChan, Send MuxDraw, Recv Kill, GoDrain DrawChan, Send (KillOf 0),
      Recv (DeadOf 0), Send MuxRemoveChild, Close EventsIn, Close DrawChan, Close Kill,
      Send Dead, Close Dead] :: nat op list"
  let ?s4 = "\<lparr>pc = Finishing [], closed = {EventsIn, DrawChan, Kill, Dead}\<rparr> :: (child_loc, nat) goroutine"
  have r1: "run killer_control ?a1 newKiller = Some ?s1"
    by (simp add: start_def perform_def killer_defers_def on_return_def insert_commute)
  have r5: "run killer_control ?a5 newKiller = Some ?s5"
    by (simp add: start_def perform_def killer_defers_def on_return_def)
  have k5: "Recv Kill \<in> set ?a5" and p5: "panicking (pc ?s5)" and c5: "Kill \<notin> closed ?s5"
    by simp_all
  have r2: "run (newEnv_control (0::nat)) ?a2 (start Selecting) = Some ?s2"
    by (simp add: start_def perform_def newEnv_defers_def on_return_def)
  have r3: "run mux_control ?a3 (start (MuxSelect NewMux)) = Some ?s3"
    by (simp add: start_def perform_def NewMux_defers_def on_return_def NewMux_def
        mux_addChild_def insert_commute)
  have r4: "run (MakeEnv_control (0::nat)) ?a4 (start ChildSelect) = Some ?s4"
    by (simp add: start_def perform_def MakeEnv_defers_def on_return_def insert_commute)
  have np: "\<not> panicking (pc ?s1)" by simp
  have k1: "Recv Kill \<in> set ?a1" and k2: "Recv Kill \<in> set ?a2" and k3: "Recv Kill \<in> set ?a3"
    and k4: "Recv Kill \<in> set ?a4"
    by simp_all
  from kill_is_one_shot [of ?a1 ?s1 ?a5 ?s5 0 ?a2 ?s2 ?a3 NewMux ?s3 0 ?a4 ?s4]
    r1 r2 r3 r4 r5 k1 k2 k3 k4 k5 np p5 c5
  show ?thesis by (simp only: simp_thms if_False)
qed

text \<open>
  The second kill signal of C6 as it was stated: a controller killed with an empty slot
  runs to its exit and has then closed its kill channel; the send of a second kill
  signal panics.
\<close>

theorem second_kill_counterexample:
  "run killer_control [Recv Kill, Close Attach, Close Kill, Send Dead, Close Dead]
     (newKiller :: (nat killer_loc, nat) goroutine)
     = Some \<lparr>pc = Finishing [], closed = {Attach, Kill, Dead}\<rparr> \<and>
   offer killer_control
     (\<lparr>pc = Finishing [], closed = {Attach, Kill, Dead}\<rparr> :: (nat killer_loc, nat) goroutine)
     Kill (Recv Kill) = Panics SendOnClosedChannel \<and>
   exec_op (Send Kill) ({Attach, Kill, Dead} :: nat chan set) = Inl SendOnClosedChannel"
  by (simp add: start_def perform_def killer_defers_def on_return_def offer_def insert_commute)

end
